theory Spec2Isabelle
  imports Main "HOL-Library.Multiset" "HOL-Library.Sublist"
begin

unbundle bit_operations_syntax

section \<open>The Go library functions used by package cmd\<close>

text \<open>
  A Go string is a sequence of bytes; it is modelled as a \<open>string\<close>, one \<open>char\<close> per
  byte.  The functions of this section are those of the Go standard library that
  \<^verbatim>\<open>cmd.go\<close> calls, written out for the arguments it calls them with.
\<close>

subsection \<open>Package strings\<close>

definition HasPrefix :: "string \<Rightarrow> string \<Rightarrow> bool" where
  "HasPrefix s p \<longleftrightarrow> length p \<le> length s \<and> take (length p) s = p"

definition HasSuffix :: "string \<Rightarrow> string \<Rightarrow> bool" where
  "HasSuffix s p \<longleftrightarrow> length p \<le> length s \<and> drop (length s - length p) s = p"

definition TrimPrefix :: "string \<Rightarrow> string \<Rightarrow> string" where
  "TrimPrefix s p = (if HasPrefix s p then drop (length p) s else s)"

definition TrimSuffix :: "string \<Rightarrow> string \<Rightarrow> string" where
  "TrimSuffix s p = (if HasSuffix s p then take (length s - length p) s else s)"

fun Join :: "string list \<Rightarrow> string \<Rightarrow> string" where
  "Join [] sep = []"
| "Join [x] sep = x"
| "Join (x # y # ys) sep = x @ sep @ Join (y # ys) sep"

text \<open>\<^verbatim>\<open>strings.Split(s, sep)\<close> for a separator of one byte: the pieces between the
  occurrences of the separator, empty pieces included, so the result is never empty.\<close>

fun Split :: "string \<Rightarrow> char \<Rightarrow> string list" where
  "Split [] sep = [Nil]"
| "Split (x # xs) sep =
     (if x = sep then [] # Split xs sep
      else (case Split xs sep of [] \<Rightarrow> [x # Nil] | w # ws \<Rightarrow> (x # w) # ws))"

text \<open>
  \<^verbatim>\<open>strings.TrimSpace\<close> removes the leading and the trailing white space as Unicode
  defines it (\<^verbatim>\<open>unicode.IsSpace\<close>), reading the string as UTF-8: the six ASCII
  characters tab, line feed, vertical tab, form feed, carriage return and space, and the
  code points U+0085, U+00A0 (two bytes each), U+1680, U+2000 to U+200A, U+2028, U+2029,
  U+202F, U+205F and U+3000 (three bytes each).
\<close>

definition asciiSpace :: "char \<Rightarrow> bool" where
  "asciiSpace c \<longleftrightarrow> c \<in> {CHR 0x09, CHR 0x0A, CHR 0x0B, CHR 0x0C, CHR 0x0D, CHR 0x20}"

definition space2 :: "char \<Rightarrow> char \<Rightarrow> bool" where
  "space2 a b \<longleftrightarrow> a = CHR 0xC2 \<and> (b = CHR 0x85 \<or> b = CHR 0xA0)"

definition space3 :: "char \<Rightarrow> char \<Rightarrow> char \<Rightarrow> bool" where
  "space3 a b c \<longleftrightarrow>
     (a = CHR 0xE1 \<and> b = CHR 0x9A \<and> c = CHR 0x80) \<or>
     (a = CHR 0xE2 \<and> b = CHR 0x80 \<and>
        (c \<in> {CHR 0x80, CHR 0x81, CHR 0x82, CHR 0x83, CHR 0x84, CHR 0x85, CHR 0x86,
                CHR 0x87, CHR 0x88, CHR 0x89, CHR 0x8A, CHR 0xA8, CHR 0xA9, CHR 0xAF})) \<or>
     (a = CHR 0xE2 \<and> b = CHR 0x81 \<and> c = CHR 0x9F) \<or>
     (a = CHR 0xE3 \<and> b = CHR 0x80 \<and> c = CHR 0x80)"

fun TrimLeftSpace :: "string \<Rightarrow> string" where
  "TrimLeftSpace (a # b # c # s) =
     (if asciiSpace a then TrimLeftSpace (b # c # s)
      else if space2 a b then TrimLeftSpace (c # s)
      else if space3 a b c then TrimLeftSpace s
      else a # b # c # s)"
| "TrimLeftSpace [a, b] =
     (if asciiSpace a then TrimLeftSpace [b] else if space2 a b then [] else [a, b])"
| "TrimLeftSpace [a] = (if asciiSpace a then [] else [a])"
| "TrimLeftSpace [] = []"

text \<open>The same from the end of the string; the argument is the string reversed, so
  \<open>a\<close> is its last byte.\<close>

fun TrimRightSpaceRev :: "string \<Rightarrow> string" where
  "TrimRightSpaceRev (a # b # c # s) =
     (if asciiSpace a then TrimRightSpaceRev (b # c # s)
      else if space2 b a then TrimRightSpaceRev (c # s)
      else if space3 c b a then TrimRightSpaceRev s
      else a # b # c # s)"
| "TrimRightSpaceRev [a, b] =
     (if asciiSpace a then TrimRightSpaceRev [b] else if space2 b a then [] else [a, b])"
| "TrimRightSpaceRev [a] = (if asciiSpace a then [] else [a])"
| "TrimRightSpaceRev [] = []"

definition TrimSpace :: "string \<Rightarrow> string" where
  "TrimSpace s = rev (TrimRightSpaceRev (rev (TrimLeftSpace s)))"

subsection \<open>Package regexp\<close>

text \<open>
  The four patterns of \<^verbatim>\<open>cmd.go\<close> are built from ASCII character classes only, so
  matching them byte by byte is matching them on the UTF-8 text.  \<^verbatim>\<open>\s\<close> is
  \<^verbatim>\<open>[\t\n\f\r ]\<close> in Go's syntax: the vertical tab is not in it.
\<close>

definition reSpace :: "char \<Rightarrow> bool" where
  "reSpace c \<longleftrightarrow> c \<in> {CHR 0x09, CHR 0x0A, CHR 0x0C, CHR 0x0D, CHR 0x20}"

definition upperAZ :: "char \<Rightarrow> bool" where
  "upperAZ c \<longleftrightarrow> (65::nat) \<le> of_char c \<and> (of_char c :: nat) \<le> 90"

definition lowerAZ :: "char \<Rightarrow> bool" where
  "lowerAZ c \<longleftrightarrow> (97::nat) \<le> of_char c \<and> (of_char c :: nat) \<le> 122"

text \<open>\<^verbatim>\<open>[A-Z_]\<close> and \<^verbatim>\<open>[a-z_]\<close>.\<close>

definition uppercasedClass :: "char \<Rightarrow> bool" where
  "uppercasedClass c \<longleftrightarrow> upperAZ c \<or> c = CHR ''_''"

definition lowercasedClass :: "char \<Rightarrow> bool" where
  "lowercasedClass c \<longleftrightarrow> lowerAZ c \<or> c = CHR ''_''"

text \<open>\<^verbatim>\<open>^\s*$\<close> without the multi-line flag: the whole line is white space.\<close>

definition blankPattern :: "string \<Rightarrow> bool" where
  "blankPattern line \<longleftrightarrow> list_all reSpace line"

text \<open>
  \<^verbatim>\<open>FindAllString(s, -1)\<close> for a pattern \<^verbatim>\<open>[class]+\<close>: the successive matches from
  left to right, each as long as it can be.  \<open>cur\<close> is the match being read.
\<close>

fun FindAllRuns :: "(char \<Rightarrow> bool) \<Rightarrow> string \<Rightarrow> string \<Rightarrow> string list" where
  "FindAllRuns P cur [] = (if cur = [] then [] else [cur])"
| "FindAllRuns P cur (x # xs) =
     (if P x then FindAllRuns P (cur @ [x]) xs
      else (if cur = [] then [] else [cur]) @ FindAllRuns P [] xs)"

definition FindAllString :: "(char \<Rightarrow> bool) \<Rightarrow> string \<Rightarrow> string list" where
  "FindAllString P s = FindAllRuns P [] s"

text \<open>
  \<^verbatim>\<open>FindAllIndex(line, -1)\<close> for \<^verbatim>\<open>\s[A-Z]\<close>, as the code uses it: for each match,
  from left to right and without overlap, the index after the match's first byte
  (\<^verbatim>\<open>tuple[0]+1\<close>).  \<open>i\<close> is the index of the first byte of the text still to read.
\<close>

fun descHeadMatches :: "nat \<Rightarrow> string \<Rightarrow> nat list" where
  "descHeadMatches i (a # b # s) =
     (if reSpace a \<and> upperAZ b then (i + 1) # descHeadMatches (i + 2) s
      else descHeadMatches (i + 1) (b # s))"
| "descHeadMatches i [a] = []"
| "descHeadMatches i [] = []"

subsection \<open>Package bufio\<close>

text \<open>
  \<^verbatim>\<open>bufio.Scanner\<close> with its default split function \<^verbatim>\<open>ScanLines\<close>: the text is cut at
  every line feed, a last line without a line feed counts when it is not empty, and one
  carriage return at the end of a line is dropped.  A line that does not fit the scanner's
  buffer of \<^verbatim>\<open>MaxScanTokenSize\<close> bytes together with its line feed stops the scan;
  \<^verbatim>\<open>scanHelpMessage\<close> does not look at the scanner's error, so the lines before it are
  all it sees.
\<close>

definition MaxScanTokenSize :: nat where
  "MaxScanTokenSize = 65536"

fun rawLines :: "string \<Rightarrow> string \<Rightarrow> string list" where
  "rawLines cur [] = (if cur = [] then [] else [cur])"
| "rawLines cur (x # xs) =
     (if x = CHR 0x0A then cur # rawLines [] xs else rawLines (cur @ [x]) xs)"

definition dropCR :: "string \<Rightarrow> string" where
  "dropCR line = (if line \<noteq> [] \<and> last line = CHR 0x0D then butlast line else line)"

definition ScanLines :: "string \<Rightarrow> string list" where
  "ScanLines text =
     map dropCR (takeWhile (\<lambda>l. length l < MaxScanTokenSize) (rawLines [] text))"

section \<open>Go maps\<close>

text \<open>
  A Go map is modelled as an association list with distinct keys, in the order in which
  the keys were first stored.  A \<^verbatim>\<open>range\<close> over a map visits every entry once, in an
  order that the language leaves open and that changes from one run to the next; the
  model takes the order as a parameter, one function for each type of map that
  \<^verbatim>\<open>cmd.go\<close> ranges over, and any function that permutes the entries is a possible
  order (\<open>valid_orders\<close>).  A function is given the entries of the map, so two maps with
  different entries are visited independently of each other.
\<close>

type_synonym linesMap = "(string \<times> string list) list"
type_synonym pairsMap = "(string \<times> (string \<times> string) list) list"
type_synonym votesMap = "(nat \<times> nat) list"

record orders =
  linesOrder :: "linesMap \<Rightarrow> linesMap"
  votesOrder :: "votesMap \<Rightarrow> votesMap"
  pairsOrder :: "pairsMap \<Rightarrow> pairsMap"

definition valid_orders :: "orders \<Rightarrow> bool" where
  "valid_orders ord \<longleftrightarrow>
     (\<forall>m. mset (linesOrder ord m) = mset m) \<and>
     (\<forall>m. mset (votesOrder ord m) = mset m) \<and>
     (\<forall>m. mset (pairsOrder ord m) = mset m)"

text \<open>The order in which the keys were stored, as one possible order.\<close>

definition insertionOrder :: orders where
  "insertionOrder = \<lparr>linesOrder = (\<lambda>m. m), votesOrder = (\<lambda>m. m), pairsOrder = (\<lambda>m. m)\<rparr>"

text \<open>\<^verbatim>\<open>m[k] = append(m[k], x)\<close>\<close>

fun mapAppend :: "('k \<times> 'v list) list \<Rightarrow> 'k \<Rightarrow> 'v \<Rightarrow> ('k \<times> 'v list) list" where
  "mapAppend [] k x = [(k, [x])]"
| "mapAppend ((k', v) # m) k x =
     (if k' = k then (k', v @ [x]) # m else (k', v) # mapAppend m k x)"

text \<open>\<^verbatim>\<open>m[k]++\<close>\<close>

fun mapIncrement :: "votesMap \<Rightarrow> nat \<Rightarrow> votesMap" where
  "mapIncrement [] k = [(k, 1)]"
| "mapIncrement ((k', v) # m) k =
     (if k' = k then (k', v + 1) # m else (k', v) # mapIncrement m k)"

section \<open>The data of package cmd\<close>

datatype Option = Option (Desc: string) (Long: string) (Short: string)

datatype Command = Command (Chain: "string list") (Desc: string) (Arguments: int)
  (Options: "Option list") (Subcommands: "Command list") (helpMessage: string)

definition ArgumentNumberDockerConfig :: int where "ArgumentNumberDockerConfig = push_bit 0 1"
definition ArgumentNumberDockerContainer :: int where "ArgumentNumberDockerContainer = push_bit 1 1"
definition ArgumentNumberDockerImage :: int where "ArgumentNumberDockerImage = push_bit 2 1"
definition ArgumentNumberDockerNetwork :: int where "ArgumentNumberDockerNetwork = push_bit 3 1"
definition ArgumentNumberDockerNode :: int where "ArgumentNumberDockerNode = push_bit 4 1"
definition ArgumentNumberDockerPlugin :: int where "ArgumentNumberDockerPlugin = push_bit 5 1"
definition ArgumentNumberDockerSecret :: int where "ArgumentNumberDockerSecret = push_bit 6 1"
definition ArgumentNumberDockerService :: int where "ArgumentNumberDockerService = push_bit 7 1"
definition ArgumentNumberDockerStack :: int where "ArgumentNumberDockerStack = push_bit 8 1"
definition ArgumentNumberDockerVolume :: int where "ArgumentNumberDockerVolume = push_bit 9 1"
definition ArgumentNumberFile :: int where "ArgumentNumberFile = push_bit 10 1"

text \<open>
  The two errors that \<^verbatim>\<open>cmd.go\<close> makes with \<^verbatim>\<open>fmt.Errorf\<close> carry the chain of the
  node; \<open>ExecError\<close> stands for any error of \<^verbatim>\<open>exec.Cmd.Output\<close>.  A run-time panic is
  not an error value: it ends the program, and is kept apart.
\<close>

datatype error = ExecError | OptionsError string | SubcommandsError string

datatype panic = SliceBoundsOutOfRange | NilDereference

definition ChainString :: "Command \<Rightarrow> string" where
  "ChainString c = Join (Chain c) '' ''"

section \<open>scanHelpMessage\<close>

text \<open>The loop over the scanned lines; \<open>currentMarker\<close> and \<open>linesMap\<close> are its state.  The
  inner loop over the markers stops at the first marker that the line begins with.\<close>

fun scanLoop :: "string list \<Rightarrow> string \<Rightarrow> linesMap \<Rightarrow> string list \<Rightarrow> linesMap" where
  "scanLoop markers currentMarker linesMap [] = linesMap"
| "scanLoop markers currentMarker linesMap (line # rest) =
     (if blankPattern line then scanLoop markers [] linesMap rest
      else (case find (HasPrefix line) markers of
        Some marker \<Rightarrow>
          (let trailer = TrimPrefix line marker in
           scanLoop markers marker
             (if TrimSpace trailer \<noteq> [] then mapAppend linesMap marker trailer else linesMap)
             rest)
      | None \<Rightarrow>
          (if currentMarker = [] then scanLoop markers currentMarker linesMap rest
           else scanLoop markers currentMarker (mapAppend linesMap currentMarker line) rest)))"

definition scanHelpMessage :: "Command \<Rightarrow> string list \<Rightarrow> linesMap" where
  "scanHelpMessage c markers = scanLoop markers [] [] (ScanLines (helpMessage c))"

section \<open>splitDescription\<close>

definition countVotes :: "string list \<Rightarrow> votesMap" where
  "countVotes lines =
     fold (\<lambda>line m. fold (\<lambda>k m. mapIncrement m k) (descHeadMatches 0 line) m) lines []"

text \<open>The loop of lines 291 to 297: the state is \<open>(descHeadIndex, votes)\<close>, both zero at
  the start, and an entry replaces it only when its count is strictly greater.\<close>

definition mostVoted :: "votesMap \<Rightarrow> nat \<times> nat" where
  "mostVoted entries =
     fold (\<lambda>(k, v) (descHeadIndex, votes). if v > votes then (k, v) else (descHeadIndex, votes))
       entries (0, 0)"

definition descHeadIndex :: "orders \<Rightarrow> string list \<Rightarrow> nat" where
  "descHeadIndex ord lines = fst (mostVoted (votesOrder ord (countVotes lines)))"

text \<open>The slice expressions \<^verbatim>\<open>line[:descHeadIndex]\<close> and \<^verbatim>\<open>line[descHeadIndex:]\<close>
  panic when the index is greater than the length of the line.\<close>

fun splitLines :: "nat \<Rightarrow> string \<Rightarrow> pairsMap \<Rightarrow> string list \<Rightarrow> panic + pairsMap" where
  "splitLines i key pairsMap [] = Inr pairsMap"
| "splitLines i key pairsMap (line # rest) =
     (if i > length line then Inl SliceBoundsOutOfRange
      else splitLines i key (mapAppend pairsMap key (take i line, drop i line)) rest)"

fun splitGroups :: "orders \<Rightarrow> pairsMap \<Rightarrow> linesMap \<Rightarrow> panic + pairsMap" where
  "splitGroups ord pairsMap [] = Inr pairsMap"
| "splitGroups ord pairsMap ((key, lines) # rest) =
     (case splitLines (descHeadIndex ord lines) key pairsMap lines of
        Inl p \<Rightarrow> Inl p
      | Inr pairsMap' \<Rightarrow> splitGroups ord pairsMap' rest)"

definition splitDescription :: "orders \<Rightarrow> linesMap \<Rightarrow> panic + pairsMap" where
  "splitDescription ord linesMap = splitGroups ord [] (linesOrder ord linesMap)"

section \<open>setArgument\<close>

text \<open>The two \<^verbatim>\<open>switch\<close> statements: what one match does to \<open>number\<close>.\<close>

definition uppercasedCase :: "string \<Rightarrow> int \<Rightarrow> int" where
  "uppercasedCase match number =
     (if match = ''CONFIG'' then number OR ArgumentNumberDockerConfig
      else if match = ''CONTAINER'' then number OR ArgumentNumberDockerContainer
      else if match = ''IMAGE'' \<or> match = ''SOURCE_IMAGE'' \<or> match = ''TARGET_IMAGE''
        then number OR ArgumentNumberDockerImage
      else if match = ''NETWORK'' then number OR ArgumentNumberDockerNetwork
      else if match = ''NODE'' then number OR ArgumentNumberDockerNode
      else if match = ''PLUGIN'' then number OR ArgumentNumberDockerPlugin
      else if match = ''SECRET'' then number OR ArgumentNumberDockerSecret
      else if match = ''SERVICE'' then number OR ArgumentNumberDockerService
      else if match = ''STACK'' then number OR ArgumentNumberDockerStack
      else if match = ''VOLUME'' then number OR ArgumentNumberDockerVolume
      else if match = ''KEY_FILE'' then number OR ArgumentNumberFile
      else number)"

definition lowercasedCase :: "string \<Rightarrow> int \<Rightarrow> int" where
  "lowercasedCase match number =
     (if match = ''file'' then number OR ArgumentNumberFile else number)"

text \<open>The loop over the usage lines; \<open>None\<close> is the \<^verbatim>\<open>return\<close> of line 150, which leaves
  the loop and the function before \<^verbatim>\<open>c.Arguments\<close> is assigned.\<close>

fun setArgumentLoop :: "string \<Rightarrow> int \<Rightarrow> string list \<Rightarrow> int option" where
  "setArgumentLoop chainString number [] = Some number"
| "setArgumentLoop chainString number (line # rest) =
     (let line' = TrimSpace line;
          trimmed = TrimPrefix line' chainString
      in if trimmed = line' then None
         else setArgumentLoop chainString
                (fold lowercasedCase (FindAllString lowercasedClass trimmed)
                  (fold uppercasedCase (FindAllString uppercasedClass trimmed) number))
                rest)"

text \<open>Lines 142 to 145 take the lines of the entry that the \<^verbatim>\<open>range\<close> visits first, and
  no lines when the map is empty.\<close>

definition usageLines :: "orders \<Rightarrow> Command \<Rightarrow> string list" where
  "usageLines ord c =
     (case linesOrder ord (scanHelpMessage c [''Usage:'']) of
        [] \<Rightarrow> []
      | (k, v) # _ \<Rightarrow> v)"

definition setArgument :: "orders \<Rightarrow> Command \<Rightarrow> Command" where
  "setArgument ord c =
     (case setArgumentLoop (ChainString c) 0 (usageLines ord c) of
        None \<Rightarrow> c
      | Some number \<Rightarrow>
          Command (Chain c) (Command.Desc c) number (Options c) (Subcommands c) (helpMessage c))"

section \<open>setOptions\<close>

text \<open>The loop over the flags of one name field (lines 198 to 206); the state is
  \<open>(long, short)\<close>.\<close>

definition flagStep :: "string \<Rightarrow> string \<times> string \<Rightarrow> string \<times> string" where
  "flagStep flag0 ls =
     (let flag = TrimSuffix flag0 '','' in
      if HasPrefix flag ''--'' then (TrimPrefix flag ''--'', snd ls)
      else if HasPrefix flag ''-'' then (fst ls, TrimPrefix flag ''-'')
      else ls)"

definition parseFlags :: "string \<Rightarrow> string \<times> string" where
  "parseFlags opt = fold flagStep (Split opt CHR '' '') ([], [])"

text \<open>\<^verbatim>\<open>pairs\<close>: the values of \<^verbatim>\<open>pairsMap\<close> one after the other, in the order of the
  \<^verbatim>\<open>range\<close>.\<close>

definition allPairs :: "orders \<Rightarrow> pairsMap \<Rightarrow> (string \<times> string) list" where
  "allPairs ord pairsMap = concat (map snd (pairsOrder ord pairsMap))"

text \<open>The loop over the pairs.  The method works on \<^verbatim>\<open>c.Options\<close> in place, so the
  options built so far are returned with the error as well.\<close>

fun setOptionsLoop ::
  "string \<Rightarrow> Option list \<Rightarrow> (string \<times> string) list \<Rightarrow> Option list \<times> error option" where
  "setOptionsLoop chainString options [] = (options, None)"
| "setOptionsLoop chainString options (pair # rest) =
     (let opt = TrimSpace (fst pair);
          desc = TrimSpace (snd pair);
          (long, short) = parseFlags opt
      in if opt = [] then
           (if length options = 0 then (options, Some (OptionsError chainString))
            else setOptionsLoop chainString
                   (butlast options @
                     [Option (Option.Desc (last options) @ '' '' @ desc)
                        (Long (last options)) (Short (last options))])
                   rest)
         else setOptionsLoop chainString (options @ [Option desc long short]) rest)"

definition setOptions :: "orders \<Rightarrow> Command \<Rightarrow> panic + Command \<times> error option" where
  "setOptions ord c =
     (case splitDescription ord (scanHelpMessage c [''Options:'']) of
        Inl p \<Rightarrow> Inl p
      | Inr pairsMap \<Rightarrow>
          (case setOptionsLoop (ChainString c) (Options c) (allPairs ord pairsMap) of
             (options, err) \<Rightarrow>
               Inr (Command (Chain c) (Command.Desc c) (Arguments c) options (Subcommands c)
                      (helpMessage c), err)))"

section \<open>setSubcommands and Forge\<close>

text \<open>
  \<^verbatim>\<open>Forge\<close> and \<^verbatim>\<open>setSubcommands\<close> call each other, once for each level of the
  external tool's hierarchy of subcommands, and nothing in the code bounds the depth.
  The model counts the levels down from a given number: \<open>None\<close> says that the levels
  allowed were not enough.  A result \<open>Some (Inl p)\<close> is a panic, and \<open>Some (Inr (c, err))\<close>
  is the pair that the Go function returns, each half \<open>None\<close> for \<^verbatim>\<open>nil\<close>.

  The external tool is the parameter \<open>invoke\<close>: the standard output of the process for
  an argument vector, or \<open>None\<close> when \<^verbatim>\<open>Output\<close> returns an error.
\<close>

type_synonym invoker = "string list \<Rightarrow> string option"

type_synonym forged = "(panic + Command option \<times> error option) option"

text \<open>The loop over the pairs, with the function to call for \<^verbatim>\<open>Forge\<close>.  A nil node
  that came with a nil error would be stored and dereferenced later; \<^verbatim>\<open>Forge\<close> never
  returns that.\<close>

fun setSubcommandsLoop ::
  "(string \<Rightarrow> string list \<Rightarrow> string \<Rightarrow> forged) \<Rightarrow> Command \<Rightarrow> (string \<times> string) list \<Rightarrow>
     (panic + Command \<times> error option) option" where
  "setSubcommandsLoop forge c [] = Some (Inr (c, None))"
| "setSubcommandsLoop forge c (pair # rest) =
     (let cmd = TrimSpace (fst pair);
          desc = TrimSpace (snd pair);
          subs = Subcommands c
      in if cmd = [] then
           (if length subs = 0 then Some (Inr (c, Some (SubcommandsError (ChainString c))))
            else setSubcommandsLoop forge
                   (Command (Chain c) (Command.Desc c) (Arguments c) (Options c)
                      (butlast subs @
                        [Command (Chain (last subs)) (Command.Desc (last subs) @ '' '' @ desc)
                           (Arguments (last subs)) (Options (last subs))
                           (Subcommands (last subs)) (helpMessage (last subs))])
                      (helpMessage c))
                   rest)
         else (case forge cmd (Chain c) desc of
                 None \<Rightarrow> None
               | Some (Inl p) \<Rightarrow> Some (Inl p)
               | Some (Inr (subcommand, Some err)) \<Rightarrow> Some (Inr (c, Some err))
               | Some (Inr (None, None)) \<Rightarrow> Some (Inl NilDereference)
               | Some (Inr (Some subcommand, None)) \<Rightarrow>
                   setSubcommandsLoop forge
                     (Command (Chain c) (Command.Desc c) (Arguments c) (Options c)
                        (subs @ [subcommand]) (helpMessage c))
                     rest))"

definition setSubcommands ::
  "(string \<Rightarrow> string list \<Rightarrow> string \<Rightarrow> forged) \<Rightarrow> orders \<Rightarrow> Command \<Rightarrow>
     (panic + Command \<times> error option) option" where
  "setSubcommands forge ord c =
     (case splitDescription ord
             (scanHelpMessage c [''Commands:'', ''Available Commands:'', ''Management Commands:'']) of
        Inl p \<Rightarrow> Some (Inl p)
      | Inr pairsMap \<Rightarrow> setSubcommandsLoop forge c (allPairs ord pairsMap))"

primrec Forge :: "nat \<Rightarrow> invoker \<Rightarrow> orders \<Rightarrow> string \<Rightarrow> string list \<Rightarrow> string \<Rightarrow> forged" where
  "Forge 0 invoke ord cmd chain desc = None"
| "Forge (Suc depth) invoke ord cmd chain desc =
     (let arg = chain @ [cmd] @ [''--help''] in
      case invoke arg of
        None \<Rightarrow> Some (Inr (None, Some ExecError))
      | Some msg \<Rightarrow>
          (let c = setArgument ord (Command (butlast arg) desc 0 [] [] msg) in
           case setOptions ord c of
             Inl p \<Rightarrow> Some (Inl p)
           | Inr (c, Some err) \<Rightarrow> Some (Inr (Some c, Some err))
           | Inr (c, None) \<Rightarrow>
               (case setSubcommands (Forge depth invoke ord) ord c of
                  None \<Rightarrow> None
                | Some (Inl p) \<Rightarrow> Some (Inl p)
                | Some (Inr (c, err)) \<Rightarrow> Some (Inr (Some c, err)))))"

section \<open>The inputs and the notions of the claims\<close>

text \<open>The help text of Scenario A: the usage line, and an options section with one line.\<close>

definition scenarioA :: string where
  "scenarioA = ''Usage:  docker rm CONTAINER [CONTAINER...]\<newline>\<newline>Options:\<newline>-f, --force    Force the removal\<newline>''"

text \<open>The matches of a pattern \<^verbatim>\<open>[class]+\<close> in the usage lines of a node, each line
  trimmed and without the chain at its beginning.\<close>

definition usageTokens :: "(char \<Rightarrow> bool) \<Rightarrow> orders \<Rightarrow> Command \<Rightarrow> string set" where
  "usageTokens P ord c =
     (\<Union>line\<in>set (usageLines ord c).
        set (FindAllString P (TrimPrefix (TrimSpace line) (ChainString c))))"

text \<open>The votes of a column in a line group: the number of matches of \<^verbatim>\<open>\s[A-Z]\<close>
  in the lines of the group whose upper-case letter stands at that column, which is what
  \<^verbatim>\<open>descHeadIndices\<close> holds for the column after the loop of lines 286 to 290 (and no
  entry when the number is zero).\<close>

definition voteCount :: "string list \<Rightarrow> nat \<Rightarrow> nat" where
  "voteCount lines k = count_list (concat (map (descHeadMatches 0) lines)) k"

text \<open>The options section of Scenario C, with a given second line.\<close>

definition scenarioC :: "string \<Rightarrow> string" where
  "scenarioC continuation =
     ''Options:\<newline>-h, --help    Print usage\<newline>'' @ continuation @ ''\<newline>''"

text \<open>The help text of Scenario B: the usage line, and a subcommands section with two
  lines.\<close>

definition scenarioB :: string where
  "scenarioB = ''Usage:  docker network COMMAND\<newline>\<newline>Commands:\<newline>connect  Connect a container to a network\<newline>create   Create a network\<newline>''"

text \<open>The names of the entries of one line group, in the order of its lines: the name
  fields that are not empty after trimming, each line cut at the split column of the
  group.\<close>

definition entryNames :: "orders \<Rightarrow> string \<times> string list \<Rightarrow> string list" where
  "entryNames ord entry =
     filter (\<lambda>name. name \<noteq> [])
       (map (\<lambda>line. TrimSpace (take (descHeadIndex ord (snd entry)) line)) (snd entry))"

text \<open>\<^verbatim>\<open>linesMap[k]\<close> as an expression: the lines stored for a key, none for a key that
  is not in the map.\<close>

definition linesOf :: "linesMap \<Rightarrow> string \<Rightarrow> string list" where
  "linesOf m k = (case map_of m k of None \<Rightarrow> [] | Some ls \<Rightarrow> ls)"

text \<open>What \<^verbatim>\<open>splitDescription\<close> stores for one entry of \<^verbatim>\<open>linesMap\<close> when no line of
  the entry is shorter than its split column.\<close>

definition splitEntry :: "orders \<Rightarrow> string \<times> string list \<Rightarrow> string \<times> (string \<times> string) list" where
  "splitEntry ord entry =
     (fst entry, map (\<lambda>line. (take (descHeadIndex ord (snd entry)) line,
                              drop (descHeadIndex ord (snd entry)) line)) (snd entry))"

text \<open>No line of a line group is shorter than the split column of the group, so that
  line 299 can slice every line of it.\<close>

definition fitsSplit :: "orders \<Rightarrow> string \<times> string list \<Rightarrow> bool" where
  "fitsSplit ord entry =
     list_all (\<lambda>line. descHeadIndex ord (snd entry) \<le> length line) (snd entry)"

text \<open>A tool for Scenario B: it answers for \<^verbatim>\<open>docker network\<close> with the help text of
  the scenario and for the two subcommands with a usage line each, and fails otherwise.\<close>

definition networkTool :: invoker where
  "networkTool = map_of
     [([''docker'', ''network'', ''--help''], scenarioB),
      ([''docker'', ''network'', ''connect'', ''--help''],
         ''Usage:  docker network connect [OPTIONS] NETWORK CONTAINER\<newline>''),
      ([''docker'', ''network'', ''create'', ''--help''],
         ''Usage:  docker network create [OPTIONS] NETWORK\<newline>'')]"

text \<open>A help text with three subcommand sections, the first and the third under the same
  marker, and a tool that answers with it; its three subcommands print nothing.\<close>

definition mixedHelp :: string where
  "mixedHelp = ''Commands:\<newline>  run     Run a container\<newline>\<newline>Management Commands:\<newline>  image   Manage images\<newline>\<newline>Commands:\<newline>  stop    Stop a container\<newline>''"

definition mixedTool :: invoker where
  "mixedTool = map_of
     [([''docker'', ''--help''], mixedHelp),
      ([''docker'', ''run'', ''--help''], []),
      ([''docker'', ''image'', ''--help''], []),
      ([''docker'', ''stop'', ''--help''], [])]"

text \<open>A help text whose second subcommand section begins with a continuation line, and a
  tool that answers with it; its two subcommands print nothing.\<close>

definition lateHelp :: string where
  "lateHelp = ''Management Commands:\<newline>  image   Manage images\<newline>\<newline>Commands:\<newline>            and more\<newline>  run     Run a container\<newline>''"

definition lateTool :: invoker where
  "lateTool = map_of
     [([''docker'', ''--help''], lateHelp),
      ([''docker'', ''image'', ''--help''], []),
      ([''docker'', ''run'', ''--help''], [])]"

section \<open>Evaluating the model\<close>

lemmas strings_defs = HasPrefix_def HasSuffix_def TrimPrefix_def TrimSuffix_def TrimSpace_def
  asciiSpace_def space2_def space3_def

lemmas regexp_defs = reSpace_def upperAZ_def lowerAZ_def uppercasedClass_def lowercasedClass_def
  blankPattern_def FindAllString_def

lemmas bufio_defs = ScanLines_def MaxScanTokenSize_def dropCR_def

lemmas split_defs = splitDescription_def descHeadIndex_def mostVoted_def countVotes_def

lemmas cmd_defs = scanHelpMessage_def setOptions_def allPairs_def parseFlags_def flagStep_def
  ChainString_def setArgument_def usageLines_def uppercasedCase_def lowercasedCase_def
  setSubcommands_def

lemmas eval_defs = cmd_defs split_defs bufio_defs regexp_defs strings_defs insertionOrder_def

section \<open>What the patterns match\<close>

text \<open>
  The matches of \<^verbatim>\<open>[class]+\<close> in a string are its maximal runs of characters of the
  class: the pieces \<open>w\<close> of the string that are not empty, lie in the class, and have no
  character of the class next to them on either side.
\<close>

lemma FindAllRuns_started:
  "cur \<noteq> [] \<Longrightarrow>
     FindAllRuns P cur s = (cur @ takeWhile P s) # FindAllRuns P [] (dropWhile P s)"
  by (induction s arbitrary: cur) simp_all

lemma FindAllString_Nil: "FindAllString P [] = []"
  by (simp add: FindAllString_def)

lemma FindAllString_Cons:
  "FindAllString P (x # xs) =
     (if P x then (x # takeWhile P xs) # FindAllString P (dropWhile P xs)
      else FindAllString P xs)"
  by (simp add: FindAllString_def FindAllRuns_started)

lemma maximal_run_skip:
  assumes "\<not> P x"
  shows "(\<exists>pre post. x # xs = pre @ w @ post \<and> w \<noteq> [] \<and> list_all P w \<and>
            (pre = [] \<or> \<not> P (last pre)) \<and> (post = [] \<or> \<not> P (hd post)))
     \<longleftrightarrow> (\<exists>pre post. xs = pre @ w @ post \<and> w \<noteq> [] \<and> list_all P w \<and>
            (pre = [] \<or> \<not> P (last pre)) \<and> (post = [] \<or> \<not> P (hd post)))"
    (is "?L \<longleftrightarrow> ?R")
proof
  assume ?L
  then obtain pre post where s: "x # xs = pre @ w @ post" and w: "w \<noteq> []" "list_all P w"
    and b: "pre = [] \<or> \<not> P (last pre)" "post = [] \<or> \<not> P (hd post)" by blast
  have "pre \<noteq> []"
  proof
    assume "pre = []"
    with s w(1) have "hd w = x" by (cases w) auto
    with w assms show False by (cases w) auto
  qed
  then obtain pre0 where pre: "pre = x # pre0" using s by (cases pre) auto
  with s have "xs = pre0 @ w @ post" by simp
  moreover from b(1) pre have "pre0 = [] \<or> \<not> P (last pre0)" by (auto split: if_splits)
  ultimately show ?R using w b(2) by blast
next
  assume ?R
  then obtain pre post where s: "xs = pre @ w @ post" and w: "w \<noteq> []" "list_all P w"
    and b: "pre = [] \<or> \<not> P (last pre)" "post = [] \<or> \<not> P (hd post)" by blast
  have "x # xs = (x # pre) @ w @ post" using s by simp
  moreover have "\<not> P (last (x # pre))" using b(1) assms by auto
  ultimately show ?L using w b(2) by blast
qed

lemma maximal_run_first:
  assumes "P x"
  shows "(\<exists>pre post. x # xs = pre @ w @ post \<and> w \<noteq> [] \<and> list_all P w \<and>
            (pre = [] \<or> \<not> P (last pre)) \<and> (post = [] \<or> \<not> P (hd post)))
     \<longleftrightarrow> w = x # takeWhile P xs \<or>
         (\<exists>pre post. dropWhile P xs = pre @ w @ post \<and> w \<noteq> [] \<and> list_all P w \<and>
            (pre = [] \<or> \<not> P (last pre)) \<and> (post = [] \<or> \<not> P (hd post)))"
    (is "?L \<longleftrightarrow> ?A \<or> ?R")
proof
  assume ?L
  then obtain pre post where s: "x # xs = pre @ w @ post" and w: "w \<noteq> []" "list_all P w"
    and b: "pre = [] \<or> \<not> P (last pre)" "post = [] \<or> \<not> P (hd post)" by blast
  show "?A \<or> ?R"
  proof (cases "pre = []")
    case True
    have "takeWhile P post = []" using b(2) by (cases post) auto
    then have tw: "takeWhile P (w @ post) = w"
      using w(2) by (simp add: takeWhile_append2 list_all_iff)
    from s True have "x # xs = w @ post" by simp
    then have "takeWhile P (x # xs) = takeWhile P (w @ post)" by (rule arg_cong)
    with tw assms have "w = x # takeWhile P xs" by simp
    then show ?thesis ..
  next
    case False
    then obtain pre0 where pre: "pre = x # pre0" using s by (cases pre) auto
    from False b(1) pre assms have pre0: "pre0 \<noteq> []" "\<not> P (last pre0)"
      by (auto split: if_splits)
    then have bad: "last pre0 \<in> set pre0" by simp
    from s pre have xs: "xs = pre0 @ w @ post" by simp
    have d: "dropWhile P xs = dropWhile P pre0 @ w @ post"
      unfolding xs using bad pre0(2) by (rule dropWhile_append1)
    have ne: "dropWhile P pre0 \<noteq> []"
      using bad pre0(2) by (auto simp: dropWhile_eq_Nil_conv)
    have "pre0 = takeWhile P pre0 @ dropWhile P pre0" by simp
    then have "last pre0 = last (dropWhile P pre0)"
      using ne by (metis last_appendR)
    with pre0(2) have "\<not> P (last (dropWhile P pre0))" by simp
    with d w b(2) have ?R by blast
    then show ?thesis ..
  qed
next
  assume "?A \<or> ?R"
  then show ?L
  proof
    assume a: ?A
    have "x # xs = [] @ w @ dropWhile P xs" using a by simp
    moreover have "list_all P w"
      using a assms by (auto simp: list_all_iff dest: set_takeWhileD)
    moreover have "dropWhile P xs = [] \<or> \<not> P (hd (dropWhile P xs))"
      using hd_dropWhile [of P xs] by blast
    ultimately show ?L using a by blast
  next
    assume ?R
    then obtain pre post where s: "dropWhile P xs = pre @ w @ post" and w: "w \<noteq> []" "list_all P w"
      and b: "pre = [] \<or> \<not> P (last pre)" "post = [] \<or> \<not> P (hd post)" by blast
    have pre: "pre \<noteq> []"
    proof
      assume "pre = []"
      with s w(1) have "hd (dropWhile P xs) = hd w" "dropWhile P xs \<noteq> []" by (cases w; simp)+
      moreover have "P (hd w)" using w by (cases w) auto
      ultimately show False using hd_dropWhile [of P xs] by simp
    qed
    have "x # xs = x # takeWhile P xs @ dropWhile P xs" by simp
    then have "x # xs = (x # takeWhile P xs @ pre) @ w @ post" unfolding s by simp
    moreover have "\<not> P (last (x # takeWhile P xs @ pre))" using pre b(1) by simp
    ultimately show ?L using w b(2) by blast
  qed
qed

lemma FindAllString_iff_maximal_run:
  "w \<in> set (FindAllString P s) \<longleftrightarrow>
     (\<exists>pre post. s = pre @ w @ post \<and> w \<noteq> [] \<and> list_all P w \<and>
        (pre = [] \<or> \<not> P (last pre)) \<and> (post = [] \<or> \<not> P (hd post)))"
proof (induction s rule: length_induct)
  case (1 s)
  show ?case
  proof (cases s)
    case Nil
    then show ?thesis by (simp add: FindAllString_Nil)
  next
    case (Cons x xs)
    show ?thesis
    proof (cases "P x")
      case False
      have "length xs < length s" using Cons by simp
      with 1 have "w \<in> set (FindAllString P xs) \<longleftrightarrow>
        (\<exists>pre post. xs = pre @ w @ post \<and> w \<noteq> [] \<and> list_all P w \<and>
           (pre = [] \<or> \<not> P (last pre)) \<and> (post = [] \<or> \<not> P (hd post)))" by blast
      then show ?thesis
        unfolding Cons maximal_run_skip [where P = P and x = x, OF False] using False by (simp add: FindAllString_Cons)
    next
      case True
      have "length (dropWhile P xs) < length s"
        using Cons length_dropWhile_le [of P xs] by simp
      with 1 have "w \<in> set (FindAllString P (dropWhile P xs)) \<longleftrightarrow>
        (\<exists>pre post. dropWhile P xs = pre @ w @ post \<and> w \<noteq> [] \<and> list_all P w \<and>
           (pre = [] \<or> \<not> P (last pre)) \<and> (post = [] \<or> \<not> P (hd post)))" by blast
      then show ?thesis
        unfolding Cons maximal_run_first [where P = P and x = x, OF True] using True by (simp add: FindAllString_Cons)
    qed
  qed
qed

text \<open>
  The indices that the loop of lines 286 to 290 counts for a line are the positions,
  each plus one, at which a white-space character is followed by an upper-case letter.
  The matches of \<^verbatim>\<open>\s[A-Z]\<close> cannot overlap, because an upper-case letter is not
  white space, so leaving overlaps out loses no position.
\<close>

lemma upperAZ_not_reSpace: "upperAZ b \<Longrightarrow> \<not> reSpace b"
  by (auto simp: upperAZ_def reSpace_def)

lemma descHeadMatches_iff:
  "k \<in> set (descHeadMatches i s) \<longleftrightarrow>
     (\<exists>j. k = i + j + 1 \<and> Suc j < length s \<and> reSpace (s ! j) \<and> upperAZ (s ! Suc j))"
proof (induction i s arbitrary: k rule: descHeadMatches.induct)
  case (1 i a b s)
  show ?case
  proof (cases "reSpace a \<and> upperAZ b")
    case True
    with 1(1) have IH: "k \<in> set (descHeadMatches (i + 2) s) \<longleftrightarrow>
      (\<exists>j. k = i + 2 + j + 1 \<and> Suc j < length s \<and> reSpace (s ! j) \<and> upperAZ (s ! Suc j))" by simp
    from True have nb: "\<not> reSpace b" by (simp add: upperAZ_not_reSpace)
    show ?thesis
    proof
      assume "k \<in> set (descHeadMatches i (a # b # s))"
      with True IH consider "k = i + 1"
        | j where "k = i + 2 + j + 1" "Suc j < length s" "reSpace (s ! j)" "upperAZ (s ! Suc j)"
        by auto
      then show "\<exists>j. k = i + j + 1 \<and> Suc j < length (a # b # s) \<and>
          reSpace ((a # b # s) ! j) \<and> upperAZ ((a # b # s) ! Suc j)"
      proof cases
        case 1
        with True show ?thesis by (intro exI [of _ 0]) simp
      next
        case (2 j)
        then show ?thesis by (intro exI [of _ "Suc (Suc j)"]) simp
      qed
    next
      assume "\<exists>j. k = i + j + 1 \<and> Suc j < length (a # b # s) \<and>
          reSpace ((a # b # s) ! j) \<and> upperAZ ((a # b # s) ! Suc j)"
      then obtain j where j: "k = i + j + 1" "Suc j < length (a # b # s)"
        "reSpace ((a # b # s) ! j)" "upperAZ ((a # b # s) ! Suc j)" by blast
      show "k \<in> set (descHeadMatches i (a # b # s))"
      proof (cases j)
        case 0
        with j True show ?thesis by simp
      next
        case (Suc j1)
        show ?thesis
        proof (cases j1)
          case 0
          with Suc j nb show ?thesis by simp
        next
          case (Suc j2)
          with \<open>j = Suc j1\<close> j have "k = i + 2 + j2 + 1" "Suc j2 < length s"
            "reSpace (s ! j2)" "upperAZ (s ! Suc j2)" by simp_all
          with IH True show ?thesis by auto
        qed
      qed
    qed
  next
    case False
    with 1(2) have IH: "k \<in> set (descHeadMatches (i + 1) (b # s)) \<longleftrightarrow>
      (\<exists>j. k = i + 1 + j + 1 \<and> Suc j < length (b # s) \<and> reSpace ((b # s) ! j) \<and>
         upperAZ ((b # s) ! Suc j))" by simp
    show ?thesis
    proof
      assume "k \<in> set (descHeadMatches i (a # b # s))"
      with False IH obtain j where "k = i + 1 + j + 1" "Suc j < length (b # s)"
        "reSpace ((b # s) ! j)" "upperAZ ((b # s) ! Suc j)" by auto
      then show "\<exists>j. k = i + j + 1 \<and> Suc j < length (a # b # s) \<and>
          reSpace ((a # b # s) ! j) \<and> upperAZ ((a # b # s) ! Suc j)"
        by (intro exI [of _ "Suc j"]) simp
    next
      assume "\<exists>j. k = i + j + 1 \<and> Suc j < length (a # b # s) \<and>
          reSpace ((a # b # s) ! j) \<and> upperAZ ((a # b # s) ! Suc j)"
      then obtain j where j: "k = i + j + 1" "Suc j < length (a # b # s)"
        "reSpace ((a # b # s) ! j)" "upperAZ ((a # b # s) ! Suc j)" by blast
      show "k \<in> set (descHeadMatches i (a # b # s))"
      proof (cases j)
        case 0
        with j False show ?thesis by simp
      next
        case (Suc j1)
        with j have "k = i + 1 + j1 + 1" "Suc j1 < length (b # s)"
          "reSpace ((b # s) ! j1)" "upperAZ ((b # s) ! Suc j1)" by simp_all
        with IH False show ?thesis by auto
      qed
    qed
  qed
next
  case (2 i a)
  show ?case by simp
next
  case (3 i)
  show ?case by simp
qed

section \<open>Orders, and the fields that each step leaves alone\<close>

lemma valid_orders_nil [simp]:
  assumes "valid_orders ord"
  shows "linesOrder ord [] = []" "votesOrder ord [] = []" "pairsOrder ord [] = []"
  using assms unfolding valid_orders_def
  by (metis mset_zero_iff)+

lemma valid_orders_single [simp]:
  assumes "valid_orders ord"
  shows "linesOrder ord [x] = [x]" "votesOrder ord [y] = [y]" "pairsOrder ord [z] = [z]"
proof -
  have "mset (linesOrder ord [x]) = {#x#}" "mset (votesOrder ord [y]) = {#y#}"
    "mset (pairsOrder ord [z]) = {#z#}"
    using assms unfolding valid_orders_def by simp_all
  then show "linesOrder ord [x] = [x]" "votesOrder ord [y] = [y]" "pairsOrder ord [z] = [z]"
    by (simp_all add: mset_single_iff_right)
qed

lemma valid_orders_set:
  assumes "valid_orders ord"
  shows "set (linesOrder ord m) = set m" "set (votesOrder ord v) = set v"
    "set (pairsOrder ord p) = set p"
  using assms unfolding valid_orders_def by (metis mset_eq_setD)+

lemma valid_insertionOrder: "valid_orders insertionOrder"
  by (simp add: valid_orders_def insertionOrder_def)

lemma setArgumentLoop_mismatch:
  assumes "line \<in> set lines" "\<not> HasPrefix (TrimSpace line) chainString"
  shows "setArgumentLoop chainString number lines = None"
  using assms
  by (induction lines arbitrary: number) (auto simp: Let_def TrimPrefix_def)

lemma setArgument_mismatch:
  assumes "line \<in> set (usageLines ord c)" "\<not> HasPrefix (TrimSpace line) (ChainString c)"
  shows "setArgument ord c = c"
  using setArgumentLoop_mismatch [OF assms] by (simp add: setArgument_def)

lemma setArgument_fields [simp]:
  "Chain (setArgument ord c) = Chain c"
  "Command.Desc (setArgument ord c) = Command.Desc c"
  "Options (setArgument ord c) = Options c"
  "Subcommands (setArgument ord c) = Subcommands c"
  "helpMessage (setArgument ord c) = helpMessage c"
  by (simp_all add: setArgument_def split: option.splits)

lemma setOptions_fields:
  assumes "setOptions ord c = Inr (c', err)"
  shows "Chain c' = Chain c" "Command.Desc c' = Command.Desc c" "Arguments c' = Arguments c"
    "Subcommands c' = Subcommands c" "helpMessage c' = helpMessage c"
  using assms by (auto simp: setOptions_def split: sum.splits prod.splits)

lemma setSubcommandsLoop_fields:
  assumes "setSubcommandsLoop forge c pairs = Some (Inr (c', err))"
  shows "Chain c' = Chain c \<and> Command.Desc c' = Command.Desc c \<and> Arguments c' = Arguments c \<and>
    Options c' = Options c \<and> helpMessage c' = helpMessage c"
  using assms
proof (induction pairs arbitrary: c)
  case Nil
  then show ?case by simp
next
  case (Cons pair rest)
  show ?case
  proof (cases "TrimSpace (fst pair) = []")
    case True
    with Cons.prems Cons.IH show ?thesis
      by (cases "Subcommands c = []") (auto simp: Let_def dest!: Cons.IH)
  next
    case False
    with Cons.prems show ?thesis
      by (auto simp: Let_def split: option.splits sum.splits prod.splits dest!: Cons.IH)
  qed
qed

lemma setSubcommands_fields:
  assumes "setSubcommands forge ord c = Some (Inr (c', err))"
  shows "Chain c' = Chain c" "Command.Desc c' = Command.Desc c" "Arguments c' = Arguments c"
    "Options c' = Options c" "helpMessage c' = helpMessage c"
  using assms setSubcommandsLoop_fields [of forge c _ c' err]
  by (auto simp: setSubcommands_def split: sum.splits)

lemma Forge_Suc_cases:
  assumes "Forge (Suc depth) invoke ord cmd chain desc = Some (Inr (Some c, err))"
  obtains msg e where "invoke (chain @ [cmd, ''--help'']) = Some msg"
      "setOptions ord (setArgument ord (Command (chain @ [cmd]) desc 0 [] [] msg)) = Inr (c, Some e)"
      "err = Some e"
  | msg c1 where "invoke (chain @ [cmd, ''--help'']) = Some msg"
      "setOptions ord (setArgument ord (Command (chain @ [cmd]) desc 0 [] [] msg)) = Inr (c1, None)"
      "setSubcommands (Forge depth invoke ord) ord c1 = Some (Inr (c, err))"
proof -
  obtain msg where msg: "invoke (chain @ [cmd, ''--help'']) = Some msg"
    using assms by (cases "invoke (chain @ [cmd, ''--help''])") (simp_all add: Let_def)
  define c0 where "c0 = setArgument ord (Command (chain @ [cmd]) desc 0 [] [] msg)"
  have F: "Forge (Suc depth) invoke ord cmd chain desc =
    (case setOptions ord c0 of
       Inl p \<Rightarrow> Some (Inl p)
     | Inr (c, Some err) \<Rightarrow> Some (Inr (Some c, Some err))
     | Inr (c, None) \<Rightarrow>
         (case setSubcommands (Forge depth invoke ord) ord c of
            None \<Rightarrow> None
          | Some (Inl p) \<Rightarrow> Some (Inl p)
          | Some (Inr (c, err)) \<Rightarrow> Some (Inr (Some c, err))))"
    using msg by (simp add: Let_def c0_def butlast_append)
  show thesis
  proof (cases "setOptions ord c0")
    case (Inl p)
    with assms F show ?thesis by simp
  next
    case (Inr r)
    obtain c1 e1 where r: "r = (c1, e1)" by (cases r)
    show ?thesis
    proof (cases e1)
      case (Some e)
      with assms F Inr r have "c = c1" "err = Some e" by simp_all
      with that(1) msg Inr r Some show ?thesis by (simp add: c0_def)
    next
      case None
      with assms F Inr r
      have "setSubcommands (Forge depth invoke ord) ord c1 = Some (Inr (c, err))"
        by (auto split: option.splits sum.splits)
      with that(2) msg Inr r None show ?thesis by (simp add: c0_def)
    qed
  qed
qed

lemma Forge_fields:
  assumes "Forge depth invoke ord cmd chain desc = Some (Inr (Some c, err))"
  shows "Chain c = chain @ [cmd]" "Command.Desc c = desc"
    "invoke (chain @ [cmd, ''--help'']) = Some (helpMessage c)"
    "Arguments c = Arguments (setArgument ord (Command (chain @ [cmd]) desc 0 [] [] (helpMessage c)))"
proof -
  obtain d where d: "depth = Suc d" using assms by (cases depth) simp_all
  have "Chain c = chain @ [cmd] \<and> Command.Desc c = desc \<and>
    invoke (chain @ [cmd, ''--help'']) = Some (helpMessage c) \<and>
    Arguments c = Arguments (setArgument ord (Command (chain @ [cmd]) desc 0 [] [] (helpMessage c)))"
    using assms [unfolded d]
  proof (cases rule: Forge_Suc_cases)
    case (1 msg e)
    from setOptions_fields [OF 1(2)] 1(1) show ?thesis by simp
  next
    case (2 msg c1)
    from setOptions_fields [OF 2(2)] setSubcommands_fields [OF 2(3)] 2(1) show ?thesis by simp
  qed
  then show "Chain c = chain @ [cmd]" "Command.Desc c = desc"
    "invoke (chain @ [cmd, ''--help'']) = Some (helpMessage c)"
    "Arguments c = Arguments (setArgument ord (Command (chain @ [cmd]) desc 0 [] [] (helpMessage c)))"
    by simp_all
qed

section \<open>setArgument: the bits of the mask\<close>

lemma bit_flag: "bit (push_bit n 1 :: int) k \<longleftrightarrow> k = n"
  by (auto simp: bit_exp_iff)

lemmas flag_defs = ArgumentNumberDockerConfig_def ArgumentNumberDockerContainer_def
  ArgumentNumberDockerImage_def ArgumentNumberDockerNetwork_def ArgumentNumberDockerNode_def
  ArgumentNumberDockerPlugin_def ArgumentNumberDockerSecret_def ArgumentNumberDockerService_def
  ArgumentNumberDockerStack_def ArgumentNumberDockerVolume_def ArgumentNumberFile_def

lemma flag_bits [simp]:
  "bit ArgumentNumberDockerConfig k \<longleftrightarrow> k = 0"
  "bit ArgumentNumberDockerContainer k \<longleftrightarrow> k = 1"
  "bit ArgumentNumberDockerImage k \<longleftrightarrow> k = 2"
  "bit ArgumentNumberDockerNetwork k \<longleftrightarrow> k = 3"
  "bit ArgumentNumberDockerNode k \<longleftrightarrow> k = 4"
  "bit ArgumentNumberDockerPlugin k \<longleftrightarrow> k = 5"
  "bit ArgumentNumberDockerSecret k \<longleftrightarrow> k = 6"
  "bit ArgumentNumberDockerService k \<longleftrightarrow> k = 7"
  "bit ArgumentNumberDockerStack k \<longleftrightarrow> k = 8"
  "bit ArgumentNumberDockerVolume k \<longleftrightarrow> k = 9"
  "bit ArgumentNumberFile k \<longleftrightarrow> k = 10"
  unfolding flag_defs by (rule bit_flag)+

lemma bit_uppercasedCase:
  "bit (uppercasedCase m n) k \<longleftrightarrow> bit n k \<or>
     (m = ''CONFIG'' \<and> k = 0) \<or> (m = ''CONTAINER'' \<and> k = 1) \<or>
     ((m = ''IMAGE'' \<or> m = ''SOURCE_IMAGE'' \<or> m = ''TARGET_IMAGE'') \<and> k = 2) \<or>
     (m = ''NETWORK'' \<and> k = 3) \<or> (m = ''NODE'' \<and> k = 4) \<or> (m = ''PLUGIN'' \<and> k = 5) \<or>
     (m = ''SECRET'' \<and> k = 6) \<or> (m = ''SERVICE'' \<and> k = 7) \<or> (m = ''STACK'' \<and> k = 8) \<or>
     (m = ''VOLUME'' \<and> k = 9) \<or> (m = ''KEY_FILE'' \<and> k = 10)"
  unfolding uppercasedCase_def
  by (simp add: bit_or_iff)

lemma bit_lowercasedCase:
  "bit (lowercasedCase m n) k \<longleftrightarrow> bit n k \<or> (m = ''file'' \<and> k = 10)"
  unfolding lowercasedCase_def
  by (simp add: bit_or_iff)

lemma bit_fold_uppercasedCase:
  "bit (fold uppercasedCase ms n) k \<longleftrightarrow> bit n k \<or> (\<exists>m\<in>set ms. bit (uppercasedCase m 0) k)"
proof (induction ms arbitrary: n)
  case Nil
  show ?case by simp
next
  case (Cons m ms)
  have "bit (uppercasedCase m n) k \<longleftrightarrow> bit n k \<or> bit (uppercasedCase m 0) k"
    by (simp add: bit_uppercasedCase [of m n] bit_uppercasedCase [of m 0])
  with Cons show ?case by auto
qed

lemma bit_fold_lowercasedCase:
  "bit (fold lowercasedCase ms n) k \<longleftrightarrow> bit n k \<or> (\<exists>m\<in>set ms. bit (lowercasedCase m 0) k)"
proof (induction ms arbitrary: n)
  case Nil
  show ?case by simp
next
  case (Cons m ms)
  have "bit (lowercasedCase m n) k \<longleftrightarrow> bit n k \<or> bit (lowercasedCase m 0) k"
    by (simp add: bit_lowercasedCase [of m n] bit_lowercasedCase [of m 0])
  with Cons show ?case by auto
qed

lemma TrimPrefix_shorter:
  assumes "HasPrefix s p" "p \<noteq> []"
  shows "TrimPrefix s p \<noteq> s"
proof -
  have "length (TrimPrefix s p) = length s - length p"
    using assms(1) by (simp add: TrimPrefix_def)
  moreover have "0 < length p" using assms(2) by simp
  moreover have "length p \<le> length s" using assms(1) by (simp add: HasPrefix_def)
  ultimately have "length (TrimPrefix s p) < length s" by linarith
  then show ?thesis by auto
qed

lemma setArgumentLoop_matching:
  assumes "\<forall>line\<in>set lines. HasPrefix (TrimSpace line) cs" "cs \<noteq> []"
  shows "\<exists>r. setArgumentLoop cs n lines = Some r \<and>
    (\<forall>k. bit r k \<longleftrightarrow> bit n k \<or>
       (\<exists>line\<in>set lines.
          (\<exists>m\<in>set (FindAllString uppercasedClass (TrimPrefix (TrimSpace line) cs)). bit (uppercasedCase m 0) k) \<or>
          (\<exists>m\<in>set (FindAllString lowercasedClass (TrimPrefix (TrimSpace line) cs)). bit (lowercasedCase m 0) k)))"
  using assms(1)
proof (induction lines arbitrary: n)
  case Nil
  show ?case by simp
next
  case (Cons line rest)
  let ?t = "TrimPrefix (TrimSpace line) cs"
  let ?n = "fold lowercasedCase (FindAllString lowercasedClass ?t)
              (fold uppercasedCase (FindAllString uppercasedClass ?t) n)"
  have ne: "?t \<noteq> TrimSpace line"
    using Cons.prems assms(2) by (simp add: TrimPrefix_shorter)
  have step: "setArgumentLoop cs n (line # rest) = setArgumentLoop cs ?n rest"
    using ne by (simp add: Let_def)
  from Cons.IH [of ?n] Cons.prems obtain r where
    r: "setArgumentLoop cs ?n rest = Some r"
    and bits: "\<And>k. bit r k \<longleftrightarrow> bit ?n k \<or>
       (\<exists>line\<in>set rest.
          (\<exists>m\<in>set (FindAllString uppercasedClass (TrimPrefix (TrimSpace line) cs)). bit (uppercasedCase m 0) k) \<or>
          (\<exists>m\<in>set (FindAllString lowercasedClass (TrimPrefix (TrimSpace line) cs)). bit (lowercasedCase m 0) k))"
    by auto
  have "bit ?n k \<longleftrightarrow> bit n k \<or> (\<exists>m\<in>set (FindAllString uppercasedClass ?t). bit (uppercasedCase m 0) k) \<or>
      (\<exists>m\<in>set (FindAllString lowercasedClass ?t). bit (lowercasedCase m 0) k)" for k
    by (simp add: bit_fold_lowercasedCase bit_fold_uppercasedCase)
  with r bits step show ?case by auto
qed

lemma and_flag:
  "x AND ArgumentNumberDockerConfig \<noteq> 0 \<longleftrightarrow> bit x 0"
  "x AND ArgumentNumberDockerContainer \<noteq> 0 \<longleftrightarrow> bit x 1"
  "x AND ArgumentNumberDockerImage \<noteq> 0 \<longleftrightarrow> bit x 2"
  "x AND ArgumentNumberDockerNetwork \<noteq> 0 \<longleftrightarrow> bit x 3"
  "x AND ArgumentNumberDockerNode \<noteq> 0 \<longleftrightarrow> bit x 4"
  "x AND ArgumentNumberDockerPlugin \<noteq> 0 \<longleftrightarrow> bit x 5"
  "x AND ArgumentNumberDockerSecret \<noteq> 0 \<longleftrightarrow> bit x 6"
  "x AND ArgumentNumberDockerService \<noteq> 0 \<longleftrightarrow> bit x 7"
  "x AND ArgumentNumberDockerStack \<noteq> 0 \<longleftrightarrow> bit x 8"
  "x AND ArgumentNumberDockerVolume \<noteq> 0 \<longleftrightarrow> bit x 9"
  "x AND ArgumentNumberFile \<noteq> 0 \<longleftrightarrow> bit x 10"
  unfolding flag_defs by (rule bit_iff_and_push_bit_not_eq_0 [symmetric])+

lemma setArgument_bits:
  assumes "\<forall>line\<in>set (usageLines ord c). HasPrefix (TrimSpace line) (ChainString c)"
    and "ChainString c \<noteq> []"
  shows "bit (Arguments (setArgument ord c)) k \<longleftrightarrow>
    (\<exists>m\<in>usageTokens uppercasedClass ord c. bit (uppercasedCase m 0) k) \<or>
    (\<exists>m\<in>usageTokens lowercasedClass ord c. bit (lowercasedCase m 0) k)"
proof -
  from setArgumentLoop_matching [OF assms, of 0] obtain r where
    r: "setArgumentLoop (ChainString c) 0 (usageLines ord c) = Some r"
    and bits: "\<And>k. bit r k \<longleftrightarrow> bit (0::int) k \<or>
       (\<exists>line\<in>set (usageLines ord c).
          (\<exists>m\<in>set (FindAllString uppercasedClass (TrimPrefix (TrimSpace line) (ChainString c))).
             bit (uppercasedCase m 0) k) \<or>
          (\<exists>m\<in>set (FindAllString lowercasedClass (TrimPrefix (TrimSpace line) (ChainString c))).
             bit (lowercasedCase m 0) k))"
    by blast
  have "Arguments (setArgument ord c) = r"
    using r by (simp add: setArgument_def)
  then show ?thesis
    unfolding usageTokens_def using bits [of k] by auto
qed

lemma lower_tokens_bit:
  "(\<exists>m\<in>L. bit (lowercasedCase m 0) k) \<longleftrightarrow> (''file'' \<in> L \<and> k = 10)"
  by (simp add: bit_lowercasedCase)

lemma upper_tokens_bit:
  "(\<exists>m\<in>U. bit (uppercasedCase m 0) k) \<longleftrightarrow>
     (''CONFIG'' \<in> U \<and> k = 0) \<or> (''CONTAINER'' \<in> U \<and> k = 1) \<or>
     ((''IMAGE'' \<in> U \<or> ''SOURCE_IMAGE'' \<in> U \<or> ''TARGET_IMAGE'' \<in> U) \<and> k = 2) \<or>
     (''NETWORK'' \<in> U \<and> k = 3) \<or> (''NODE'' \<in> U \<and> k = 4) \<or> (''PLUGIN'' \<in> U \<and> k = 5) \<or>
     (''SECRET'' \<in> U \<and> k = 6) \<or> (''SERVICE'' \<in> U \<and> k = 7) \<or> (''STACK'' \<in> U \<and> k = 8) \<or>
     (''VOLUME'' \<in> U \<and> k = 9) \<or> (''KEY_FILE'' \<in> U \<and> k = 10)"
  by (simp add: bit_uppercasedCase bex_disj_distrib conj_disj_distribR)

section \<open>Scenario A\<close>

lemma scenarioA_usage:
  "scanHelpMessage (Command ch d a os ss scenarioA) [''Usage:''] = [(''Usage:'', [''  docker rm CONTAINER [CONTAINER...]''])]"
  by (simp add: scenarioA_def scanHelpMessage_def bufio_defs regexp_defs strings_defs)

lemma scenarioA_options:
  "scanHelpMessage (Command ch d a os ss scenarioA) [''Options:''] = [(''Options:'', [''-f, --force    Force the removal''])]"
  by (simp add: scenarioA_def scanHelpMessage_def bufio_defs regexp_defs strings_defs)

lemma scenarioA_commands:
  "scanHelpMessage (Command ch d a os ss scenarioA) [''Commands:'', ''Available Commands:'', ''Management Commands:''] = []"
  by (simp add: scenarioA_def scanHelpMessage_def bufio_defs regexp_defs strings_defs)

lemma scenarioA_setArgument:
  assumes "valid_orders ord"
  shows "setArgument ord (Command [''docker'', ''rm''] desc 0 [] [] scenarioA)
    = Command [''docker'', ''rm''] desc ArgumentNumberDockerContainer [] [] scenarioA"
  using assms
  by (simp add: setArgument_def usageLines_def scenarioA_usage ChainString_def strings_defs regexp_defs
      uppercasedCase_def lowercasedCase_def)

lemma scenarioA_setOptions:
  assumes "valid_orders ord"
  shows "setOptions ord (Command [''docker'', ''rm''] desc a [] [] scenarioA)
    = Inr (Command [''docker'', ''rm''] desc a [Option ''Force the removal'' ''force'' ''f''] [] scenarioA, None)"
  using assms
  by (simp add: setOptions_def scenarioA_options split_defs regexp_defs allPairs_def
      strings_defs parseFlags_def flagStep_def)

lemma scenarioA_setSubcommands:
  assumes "valid_orders ord"
  shows "setSubcommands forge ord (Command ch d a os ss scenarioA)
    = Some (Inr (Command ch d a os ss scenarioA, None))"
  using assms
  by (simp add: setSubcommands_def scenarioA_commands split_defs allPairs_def)

text \<open>
  Claim C5.  For the help text of Scenario A and the chain \<^verbatim>\<open>["docker", "rm"]\<close>,
  whatever the order of the map iterations, \<^verbatim>\<open>Forge\<close> returns a node and no error;
  the mask of the node has the container flag (and is that flag), and its options are
  the one option with the description \<^verbatim>\<open>Force the removal\<close>, the long name
  \<^verbatim>\<open>force\<close> and the short name \<^verbatim>\<open>f\<close>.
\<close>

theorem scenario_A:
  assumes "valid_orders ord"
    and "invoke [''docker'', ''rm'', ''--help''] = Some scenarioA"
  shows "\<exists>c. Forge (Suc depth) invoke ord ''rm'' [''docker''] desc = Some (Inr (Some c, None)) \<and>
    Chain c = [''docker'', ''rm''] \<and>
    Arguments c AND ArgumentNumberDockerContainer \<noteq> 0 \<and>
    Arguments c = ArgumentNumberDockerContainer \<and>
    Options c = [Option ''Force the removal'' ''force'' ''f'']"
  using assms
  by (simp add: scenarioA_setArgument scenarioA_setOptions scenarioA_setSubcommands
      ArgumentNumberDockerContainer_def)

theorem scenario_A_witness:
  "valid_orders insertionOrder \<and>
   (\<exists>c. Forge 1 (map_of [([''docker'', ''rm'', ''--help''], scenarioA)])
          insertionOrder ''rm'' [''docker''] ''Remove one or more containers'' = Some (Inr (Some c, None)) \<and>
    Arguments c AND ArgumentNumberDockerContainer \<noteq> 0 \<and>
    Options c = [Option ''Force the removal'' ''force'' ''f''])"
  using scenario_A [where ord = insertionOrder and depth = 0
      and desc = "''Remove one or more containers''"
      and invoke = "map_of [([''docker'', ''rm'', ''--help''], scenarioA)]"]
    valid_insertionOrder
  by auto

section \<open>A usage line that does not begin with the chain\<close>

text \<open>
  Claim C6.  When some line of the usage section, trimmed of its leading and trailing
  white space, does not begin with the chain of the node joined by single spaces,
  \<^verbatim>\<open>setArgument\<close> returns at that line without assigning the mask: the node is left as
  \<^verbatim>\<open>Forge\<close> made it, with the mask \<open>0\<close>, whatever the lines before contained, and
  every node that \<^verbatim>\<open>Forge\<close> returns for this help text has the mask \<open>0\<close>.
  \<^verbatim>\<open>setArgument\<close> has no error to return.
\<close>

theorem usage_line_without_chain_gives_empty_mask:
  assumes "invoke (chain @ [cmd, ''--help'']) = Some msg"
    and "line \<in> set (usageLines ord (Command (chain @ [cmd]) desc 0 [] [] msg))"
    and "\<not> HasPrefix (TrimSpace line) (Join (chain @ [cmd]) '' '')"
  shows "setArgument ord (Command (chain @ [cmd]) desc 0 [] [] msg)
           = Command (chain @ [cmd]) desc 0 [] [] msg \<and>
         (\<forall>c err. Forge depth invoke ord cmd chain desc = Some (Inr (Some c, err))
            \<longrightarrow> Arguments c = 0)"
proof -
  let ?c0 = "Command (chain @ [cmd]) desc 0 [] [] msg"
  have same: "setArgument ord ?c0 = ?c0"
    using assms(2,3) by (intro setArgument_mismatch [of line]) (simp_all add: ChainString_def)
  have "Arguments c = 0" if "Forge depth invoke ord cmd chain desc = Some (Inr (Some c, err))"
    for c err
  proof -
    from Forge_fields(3) [OF that] assms(1) have "helpMessage c = msg" by simp
    with Forge_fields(4) [OF that] same show ?thesis by simp
  qed
  with same show ?thesis by blast
qed

text \<open>In the witness the first usage line begins with the chain and names
  \<^verbatim>\<open>CONTAINER\<close>; the second does not begin with the chain.\<close>

theorem usage_line_without_chain_gives_empty_mask_witness:
  "(map_of [([''docker'', ''rm'', ''--help''], ''Usage:  docker rm CONTAINER\<newline>  podman rm IMAGE\<newline>'')])
      ([''docker''] @ [''rm'', ''--help''])
     = Some ''Usage:  docker rm CONTAINER\<newline>  podman rm IMAGE\<newline>'' \<and>
   ''  podman rm IMAGE'' \<in> set (usageLines insertionOrder
       (Command ([''docker''] @ [''rm'']) [] 0 [] []
          ''Usage:  docker rm CONTAINER\<newline>  podman rm IMAGE\<newline>'')) \<and>
   \<not> HasPrefix (TrimSpace ''  podman rm IMAGE'') (Join ([''docker''] @ [''rm'']) '' '') \<and>
   (\<exists>c. Forge 1 (map_of [([''docker'', ''rm'', ''--help''], ''Usage:  docker rm CONTAINER\<newline>  podman rm IMAGE\<newline>'')])
          insertionOrder ''rm'' [''docker''] [] = Some (Inr (Some c, None)) \<and>
        Arguments c = 0)"
proof -
  let ?msg = "''Usage:  docker rm CONTAINER\<newline>  podman rm IMAGE\<newline>''"
  let ?invoke = "map_of [([''docker'', ''rm'', ''--help''], ?msg)]"
  have h1: "?invoke ([''docker''] @ [''rm'', ''--help'']) = Some ?msg" by simp
  have h2: "''  podman rm IMAGE'' \<in> set (usageLines insertionOrder
       (Command ([''docker''] @ [''rm'']) [] 0 [] [] ?msg))"
    by (simp add: usageLines_def insertionOrder_def scanHelpMessage_def bufio_defs regexp_defs
        strings_defs)
  have h3: "\<not> HasPrefix (TrimSpace ''  podman rm IMAGE'') (Join ([''docker''] @ [''rm'']) '' '')"
    by (simp add: strings_defs)
  have same: "setArgument insertionOrder (Command [''docker'', ''rm''] [] 0 [] [] ?msg)
      = Command [''docker'', ''rm''] [] 0 [] [] ?msg"
    and zero: "\<And>c err. Forge 1 ?invoke insertionOrder ''rm'' [''docker''] [] = Some (Inr (Some c, err))
      \<Longrightarrow> Arguments c = 0"
    using usage_line_without_chain_gives_empty_mask [where invoke = ?invoke and depth = 1
        and ord = insertionOrder and desc = "[]" and line = "''  podman rm IMAGE''", OF h1 h2 h3]
    by simp_all
  have opts: "setOptions insertionOrder (Command [''docker'', ''rm''] [] 0 [] [] ?msg)
      = Inr (Command [''docker'', ''rm''] [] 0 [] [] ?msg, None)"
    by (simp add: cmd_defs split_defs bufio_defs regexp_defs strings_defs insertionOrder_def)
  have subs: "setSubcommands forge insertionOrder (Command [''docker'', ''rm''] [] 0 [] [] ?msg)
      = Some (Inr (Command [''docker'', ''rm''] [] 0 [] [] ?msg, None))" for forge
    by (simp add: cmd_defs split_defs bufio_defs regexp_defs strings_defs insertionOrder_def)
  have forge: "Forge 1 ?invoke insertionOrder ''rm'' [''docker''] []
      = Some (Inr (Some (Command [''docker'', ''rm''] [] 0 [] [] ?msg), None))"
    by (simp add: same opts subs)
  from zero [OF forge] forge h1 h2 h3 show ?thesis by blast
qed

section \<open>The mask holds exactly the flags of the keywords\<close>

text \<open>
  Claim C8, as the code has it.  The mask belongs to the usage section as a whole.  When
  every line of the usage section, trimmed, begins with the chain of the node joined by
  single spaces (for a usage section of one line: when that line does), and the chain is
  not the empty string, the mask that \<^verbatim>\<open>setArgument\<close> stores has the bit of an
  argument kind exactly when one of the keywords of that kind is among the tokens of the
  remainder of one of the usage lines: the matches of \<^verbatim>\<open>[A-Z_]+\<close> for the upper-case
  keywords, those of \<^verbatim>\<open>[a-z_]+\<close> for \<^verbatim>\<open>file\<close>, which are the maximal runs of these
  characters (\<open>FindAllString_iff_maximal_run\<close>).  No bit beyond the eleven flags is set.
\<close>

theorem argument_mask_is_exactly_the_keywords:
  assumes "\<forall>line\<in>set (usageLines ord c). HasPrefix (TrimSpace line) (ChainString c)"
    and "ChainString c \<noteq> []"
  shows "(let number = Arguments (setArgument ord c);
              U = usageTokens uppercasedClass ord c;
              L = usageTokens lowercasedClass ord c
          in (number AND ArgumentNumberDockerConfig \<noteq> 0 \<longleftrightarrow> ''CONFIG'' \<in> U) \<and>
             (number AND ArgumentNumberDockerContainer \<noteq> 0 \<longleftrightarrow> ''CONTAINER'' \<in> U) \<and>
             (number AND ArgumentNumberDockerImage \<noteq> 0 \<longleftrightarrow>
                ''IMAGE'' \<in> U \<or> ''SOURCE_IMAGE'' \<in> U \<or> ''TARGET_IMAGE'' \<in> U) \<and>
             (number AND ArgumentNumberDockerNetwork \<noteq> 0 \<longleftrightarrow> ''NETWORK'' \<in> U) \<and>
             (number AND ArgumentNumberDockerNode \<noteq> 0 \<longleftrightarrow> ''NODE'' \<in> U) \<and>
             (number AND ArgumentNumberDockerPlugin \<noteq> 0 \<longleftrightarrow> ''PLUGIN'' \<in> U) \<and>
             (number AND ArgumentNumberDockerSecret \<noteq> 0 \<longleftrightarrow> ''SECRET'' \<in> U) \<and>
             (number AND ArgumentNumberDockerService \<noteq> 0 \<longleftrightarrow> ''SERVICE'' \<in> U) \<and>
             (number AND ArgumentNumberDockerStack \<noteq> 0 \<longleftrightarrow> ''STACK'' \<in> U) \<and>
             (number AND ArgumentNumberDockerVolume \<noteq> 0 \<longleftrightarrow> ''VOLUME'' \<in> U) \<and>
             (number AND ArgumentNumberFile \<noteq> 0 \<longleftrightarrow> ''KEY_FILE'' \<in> U \<or> ''file'' \<in> L) \<and>
             (\<forall>k. bit number k \<longrightarrow> k \<le> 10))"
proof -
  note b = setArgument_bits [OF assms, unfolded upper_tokens_bit lower_tokens_bit]
  have "\<forall>k. bit (Arguments (setArgument ord c)) k \<longrightarrow> k \<le> 10"
    unfolding b by auto
  then show ?thesis
    unfolding Let_def and_flag by (simp add: b)
qed

theorem argument_mask_is_exactly_the_keywords_witness:
  "usageLines insertionOrder (Command [''docker'', ''rm''] [] 0 [] [] scenarioA)
     = [''  docker rm CONTAINER [CONTAINER...]''] \<and>
   HasPrefix (TrimSpace ''  docker rm CONTAINER [CONTAINER...]'')
     (ChainString (Command [''docker'', ''rm''] [] 0 [] [] scenarioA)) \<and>
   ChainString (Command [''docker'', ''rm''] [] 0 [] [] scenarioA) \<noteq> [] \<and>
   Arguments (setArgument insertionOrder (Command [''docker'', ''rm''] [] 0 [] [] scenarioA))
     AND ArgumentNumberDockerContainer \<noteq> 0 \<and>
   Arguments (setArgument insertionOrder (Command [''docker'', ''rm''] [] 0 [] [] scenarioA))
     AND ArgumentNumberDockerImage = 0"
proof -
  let ?c = "Command [''docker'', ''rm''] [] 0 [] [] scenarioA"
  have lines: "usageLines insertionOrder ?c = [''  docker rm CONTAINER [CONTAINER...]'']"
    by (simp add: usageLines_def scenarioA_usage insertionOrder_def)
  have h0: "HasPrefix (TrimSpace ''  docker rm CONTAINER [CONTAINER...]'') (ChainString ?c)"
    by (simp add: ChainString_def strings_defs)
  then have h1: "\<forall>line\<in>set (usageLines insertionOrder ?c). HasPrefix (TrimSpace line) (ChainString ?c)"
    by (simp add: lines)
  have h2: "ChainString ?c \<noteq> []"
    by (simp add: ChainString_def)
  have U: "usageTokens uppercasedClass insertionOrder ?c = {''CONTAINER''}"
    by (simp add: usageTokens_def lines ChainString_def strings_defs regexp_defs)
  from argument_mask_is_exactly_the_keywords [OF h1 h2] lines h0 h2 show ?thesis
    by (simp add: Let_def U)
qed

text \<open>
  Claim C8 as stated speaks of every usage line that begins with the chain, each with
  its own remainder.  In the first usage section below the first line begins with the
  chain and its remainder has the token \<^verbatim>\<open>CONTAINER\<close>, but the second line does not
  begin with the chain, and the mask is empty.  In the second usage section both lines
  begin with the chain; the mask has the flag of \<^verbatim>\<open>IMAGE\<close>, a keyword of the second
  line only, beside that of \<^verbatim>\<open>CONTAINER\<close>.
\<close>

theorem mask_is_for_the_whole_usage_section:
  "usageLines insertionOrder
      (Command [''docker'', ''rm''] [] 0 [] [] ''Usage:  docker rm CONTAINER\<newline>  podman rm IMAGE\<newline>'')
     = [''  docker rm CONTAINER'', ''  podman rm IMAGE''] \<and>
   HasPrefix (TrimSpace ''  docker rm CONTAINER'') ''docker rm'' \<and>
   FindAllString uppercasedClass (TrimPrefix (TrimSpace ''  docker rm CONTAINER'') ''docker rm'')
     = [''CONTAINER''] \<and>
   Arguments (setArgument insertionOrder
      (Command [''docker'', ''rm''] [] 0 [] [] ''Usage:  docker rm CONTAINER\<newline>  podman rm IMAGE\<newline>''))
     = 0 \<and>
   usageLines insertionOrder
      (Command [''docker'', ''rm''] [] 0 [] [] ''Usage:  docker rm CONTAINER\<newline>  docker rm IMAGE\<newline>'')
     = [''  docker rm CONTAINER'', ''  docker rm IMAGE''] \<and>
   Arguments (setArgument insertionOrder
      (Command [''docker'', ''rm''] [] 0 [] [] ''Usage:  docker rm CONTAINER\<newline>  docker rm IMAGE\<newline>''))
     = ArgumentNumberDockerContainer OR ArgumentNumberDockerImage"
  by (simp add: eval_defs flag_defs)

section \<open>The split column\<close>

lemma mapIncrement_keys:
  "map fst (mapIncrement m k) = (if k \<in> fst ` set m then map fst m else map fst m @ [k])"
  by (induction m) fastforce+

lemma mapIncrement_distinct:
  "distinct (map fst m) \<Longrightarrow> distinct (map fst (mapIncrement m k))"
  by (simp add: mapIncrement_keys)

lemma map_of_mapIncrement:
  "map_of (mapIncrement m k) k' =
     (if k' = k then Some (case map_of m k of None \<Rightarrow> 1 | Some v \<Rightarrow> v + 1) else map_of m k')"
  by (induction m) auto

lemma fold_mapIncrement:
  "distinct (map fst m) \<Longrightarrow>
     distinct (map fst (fold (\<lambda>k m. mapIncrement m k) ks m)) \<and>
     map_of (fold (\<lambda>k m. mapIncrement m k) ks m) k' =
       (if count_list ks k' = 0 then map_of m k'
        else Some (count_list ks k' + (case map_of m k' of None \<Rightarrow> 0 | Some v \<Rightarrow> v)))"
proof (induction ks arbitrary: m)
  case Nil
  then show ?case by simp
next
  case (Cons k ks)
  from Cons.IH [OF mapIncrement_distinct [OF Cons.prems], of k]
  show ?case
    by (auto simp: map_of_mapIncrement split: option.splits)
qed

lemma countVotes_fold:
  "countVotes lines = fold (\<lambda>k m. mapIncrement m k) (concat (map (descHeadMatches 0) lines)) []"
  unfolding countVotes_def by (induction lines rule: rev_induct) simp_all

lemma countVotes_distinct: "distinct (map fst (countVotes lines))"
  using fold_mapIncrement [of "[]"] by (simp add: countVotes_fold)

lemma map_of_countVotes:
  "map_of (countVotes lines) k = (if voteCount lines k = 0 then None else Some (voteCount lines k))"
  using fold_mapIncrement [of "[]" _ k] by (simp add: countVotes_fold voteCount_def)

lemma countVotes_entry:
  "(k, v) \<in> set (countVotes lines) \<longleftrightarrow> v = voteCount lines k \<and> 0 < v"
proof -
  have "(k, v) \<in> set (countVotes lines) \<longleftrightarrow> map_of (countVotes lines) k = Some v"
    by (simp add: countVotes_distinct)
  also have "\<dots> \<longleftrightarrow> v = voteCount lines k \<and> 0 < v"
    unfolding map_of_countVotes by auto
  finally show ?thesis .
qed

lemma mostVoted_fold:
  fixes es :: votesMap
  defines "step \<equiv> (\<lambda>(k, v) (descHeadIndex, votes). if v > votes then (k, v) else (descHeadIndex, votes))"
  shows "snd acc \<le> snd (fold step es acc) \<and>
    (\<forall>(k, v)\<in>set es. v \<le> snd (fold step es acc)) \<and>
    (fold step es acc = acc \<or> fold step es acc \<in> set es)"
proof (induction es arbitrary: acc)
  case Nil
  show ?case by simp
next
  case (Cons e es)
  obtain k v where e: "e = (k, v)" by (cases e)
  obtain i n where acc: "acc = (i, n)" by (cases acc)
  show ?case
  proof (cases "v > n")
    case True
    then have s: "fold step (e # es) acc = fold step es e" by (simp add: step_def e acc)
    from Cons.IH [of e] True show ?thesis
      unfolding s by (auto simp: e acc)
  next
    case False
    then have s: "fold step (e # es) acc = fold step es acc" by (simp add: step_def e acc)
    from Cons.IH [of acc] False show ?thesis
      unfolding s by (auto simp: e acc)
  qed
qed

lemma mostVoted_cases:
  "(mostVoted es = (0, 0) \<or> mostVoted es \<in> set es) \<and>
   (\<forall>(k, v)\<in>set es. v \<le> snd (mostVoted es))"
  using mostVoted_fold [of "(0, 0)" es] unfolding mostVoted_def by auto

lemma descHeadIndex_most_votes:
  assumes "valid_orders ord"
  shows "voteCount lines k \<le> voteCount lines (descHeadIndex ord lines)"
proof -
  let ?es = "votesOrder ord (countVotes lines)"
  obtain i v where iv: "mostVoted ?es = (i, v)" by (cases "mostVoted ?es")
  have set: "set ?es = set (countVotes lines)" by (rule valid_orders_set [OF assms])
  have i: "descHeadIndex ord lines = i" by (simp add: descHeadIndex_def iv)
  have le: "voteCount lines k \<le> v"
  proof (cases "voteCount lines k = 0")
    case True
    then show ?thesis by simp
  next
    case False
    then have "(k, voteCount lines k) \<in> set ?es" by (simp add: set countVotes_entry)
    with mostVoted_cases [of ?es] iv show ?thesis by auto
  qed
  from mostVoted_cases [of ?es] iv have "(i, v) = (0, 0) \<or> (i, v) \<in> set (countVotes lines)"
    by (simp add: set)
  then have "v \<le> voteCount lines i"
    by (auto simp: countVotes_entry)
  with le i show ?thesis by simp
qed

lemma descHeadIndex_no_votes:
  assumes "valid_orders ord" "\<forall>k. voteCount lines k = 0"
  shows "descHeadIndex ord lines = 0"
proof -
  have "countVotes lines = []"
  proof (cases "countVotes lines")
    case Nil
    then show ?thesis .
  next
    case (Cons e es)
    obtain k v where "e = (k, v)" by (cases e)
    with Cons have "(k, v) \<in> set (countVotes lines)" by simp
    then have "0 < voteCount lines k" by (simp add: countVotes_entry)
    with assms(2) show ?thesis by simp
  qed
  with assms(1) show ?thesis by (simp add: descHeadIndex_def mostVoted_def)
qed

lemma mostVoted_step_keep:
  fixes es :: votesMap
  assumes "\<forall>(k', v')\<in>set es. v' \<le> snd acc"
  shows "fold (\<lambda>(k, v) (descHeadIndex, votes). if v > votes then (k, v) else (descHeadIndex, votes))
           es acc = acc"
  using assms
proof (induction es)
  case Nil
  show ?case by simp
next
  case (Cons e es)
  obtain k v where e: "e = (k, v)" by (cases e)
  obtain i n where acc: "acc = (i, n)" by (cases acc)
  from Cons.prems have "v \<le> n" by (simp add: e acc)
  with Cons show ?case by (simp add: e acc)
qed

lemma mostVoted_first_of_the_greatest:
  assumes "\<forall>(k', v')\<in>set es1. v' < v" and "\<forall>(k', v')\<in>set es2. v' \<le> v" and "0 < v"
  shows "mostVoted (es1 @ (k, v) # es2) = (k, v)"
proof -
  let ?step = "\<lambda>(k, v) (descHeadIndex, votes). if v > votes then (k, v) else (descHeadIndex, (votes :: nat))"
  let ?a = "fold ?step es1 (0 :: nat, 0 :: nat)"
  from mostVoted_fold [of "(0, 0)" es1] have "?a = (0, 0) \<or> ?a \<in> set es1" by simp
  with assms(1,3) have lt: "snd ?a < v" by auto
  obtain i n where a: "?a = (i, n)" by (cases ?a)
  with lt have "n < v" by simp
  then have "fold ?step (es1 @ (k, v) # es2) (0, 0) = fold ?step es2 (k, v)"
    by (simp add: a)
  also have "\<dots> = (k, v)"
    by (rule mostVoted_step_keep) (use assms(2) in simp)
  finally show ?thesis by (simp add: mostVoted_def)
qed

lemma descHeadIndex_first_visited:
  assumes "valid_orders ord"
    and "map fst (votesOrder ord (countVotes lines)) = pre @ k # post"
    and "\<forall>k'\<in>set pre. voteCount lines k' < voteCount lines k"
    and "\<forall>k'. voteCount lines k' \<le> voteCount lines k"
  shows "descHeadIndex ord lines = k"
proof -
  let ?es = "votesOrder ord (countVotes lines)"
  have set: "set ?es = set (countVotes lines)" by (rule valid_orders_set [OF assms(1)])
  from assms(2) obtain es1 e es2 where es: "?es = es1 @ e # es2"
    and m: "map fst es1 = pre" "fst e = k" "map fst es2 = post"
    by (auto simp: map_eq_append_conv map_eq_Cons_conv)
  obtain v where e: "e = (k, v)" using m(2) by (cases e) simp
  have entry: "v' = voteCount lines k' \<and> 0 < v'" if "(k', v') \<in> set ?es" for k' v'
    using that by (simp add: set countVotes_entry)
  have v: "v = voteCount lines k" "0 < v"
    using entry [of k v] by (simp_all add: es e)
  have 1: "\<forall>(k', v')\<in>set es1. v' < v"
  proof (clarify)
    fix k' v' assume in1: "(k', v') \<in> set es1"
    then have "k' \<in> set pre" using m(1) by force
    moreover from in1 have "v' = voteCount lines k'" using entry [of k' v'] by (simp add: es)
    ultimately show "v' < v" using assms(3) v(1) by simp
  qed
  have 2: "\<forall>(k', v')\<in>set es2. v' \<le> v"
  proof (clarify)
    fix k' v' assume "(k', v') \<in> set es2"
    then have "v' = voteCount lines k'" using entry [of k' v'] by (simp add: es)
    then show "v' \<le> v" using assms(4) v(1) by simp
  qed
  from mostVoted_first_of_the_greatest [OF 1 2 v(2), of k]
  show ?thesis by (simp add: descHeadIndex_def es e)
qed

text \<open>
  Claim C3, as the code has it.  For every line group and every order in which the
  \<^verbatim>\<open>range\<close> of line 292 visits the votes, the chosen split column has the most votes
  of all columns, and it is \<open>0\<close> when no column has a vote.  When one column has more
  votes than every other, every order chooses it.  Among the columns that have the most
  votes the loop keeps the one it visits first, because it replaces its choice only for
  a strictly greater count: when the columns are visited in the order \<open>pre @ k # post\<close>,
  \<open>k\<close> has the most votes and every column of \<open>pre\<close> has fewer, the choice is \<open>k\<close>.
  Nothing in the code makes that the lowest one.
\<close>

theorem split_column_has_most_votes:
  assumes "valid_orders ord"
  shows "(\<forall>k. voteCount lines k \<le> voteCount lines (descHeadIndex ord lines)) \<and>
    ((\<forall>k. voteCount lines k = 0) \<longrightarrow> descHeadIndex ord lines = 0) \<and>
    (\<forall>ord'. valid_orders ord' \<longrightarrow>
       (\<forall>k. k \<noteq> descHeadIndex ord lines \<longrightarrow>
          voteCount lines k < voteCount lines (descHeadIndex ord lines)) \<longrightarrow>
       descHeadIndex ord' lines = descHeadIndex ord lines) \<and>
    (\<forall>pre k post.
       map fst (votesOrder ord (countVotes lines)) = pre @ k # post \<longrightarrow>
       (\<forall>k'\<in>set pre. voteCount lines k' < voteCount lines k) \<longrightarrow>
       (\<forall>k'. voteCount lines k' \<le> voteCount lines k) \<longrightarrow>
       descHeadIndex ord lines = k)"
proof (intro conjI allI impI)
  show "voteCount lines k \<le> voteCount lines (descHeadIndex ord lines)" for k
    by (rule descHeadIndex_most_votes [OF assms])
  show "descHeadIndex ord lines = 0" if "\<forall>k. voteCount lines k = 0"
    by (rule descHeadIndex_no_votes [OF assms that])
  show "descHeadIndex ord' lines = descHeadIndex ord lines"
    if "valid_orders ord'"
      and "\<forall>k. k \<noteq> descHeadIndex ord lines \<longrightarrow>
          voteCount lines k < voteCount lines (descHeadIndex ord lines)" for ord'
  proof (rule ccontr)
    assume "descHeadIndex ord' lines \<noteq> descHeadIndex ord lines"
    with that(2) have "voteCount lines (descHeadIndex ord' lines)
        < voteCount lines (descHeadIndex ord lines)" by blast
    with descHeadIndex_most_votes [OF that(1), of lines "descHeadIndex ord lines"]
    show False by simp
  qed
  show "descHeadIndex ord lines = k"
    if "map fst (votesOrder ord (countVotes lines)) = pre @ k # post"
      and "\<forall>k'\<in>set pre. voteCount lines k' < voteCount lines k"
      and "\<forall>k'. voteCount lines k' \<le> voteCount lines k" for pre k post
    by (rule descHeadIndex_first_visited [OF assms that])
qed

theorem split_column_has_most_votes_witness:
  "valid_orders insertionOrder \<and>
   descHeadIndex insertionOrder
     [''connect  Connect a container to a network'', ''create   Create a network''] = 9 \<and>
   voteCount [''connect  Connect a container to a network'', ''create   Create a network''] 9 = 2 \<and>
   voteCount [''connect  Connect a container to a network'', ''create   Create a network''] 3
     \<le> voteCount [''connect  Connect a container to a network'', ''create   Create a network'']
          (descHeadIndex insertionOrder
             [''connect  Connect a container to a network'', ''create   Create a network'']) \<and>
   map fst (votesOrder insertionOrder (countVotes [''a B  C  D'', ''abcd C  D''])) = [2] @ 5 # [8] \<and>
   voteCount [''a B  C  D'', ''abcd C  D''] 2 = 1 \<and>
   voteCount [''a B  C  D'', ''abcd C  D''] 5 = 2 \<and>
   voteCount [''a B  C  D'', ''abcd C  D''] 8 = 2 \<and>
   descHeadIndex insertionOrder [''a B  C  D'', ''abcd C  D''] = 5"
proof -
  let ?L = "[''connect  Connect a container to a network'', ''create   Create a network'']"
  have i: "descHeadIndex insertionOrder ?L = 9"
    by (simp add: split_defs regexp_defs insertionOrder_def)
  have v: "voteCount ?L 9 = 2"
    by (simp add: voteCount_def regexp_defs)
  note T = split_column_has_most_votes [OF valid_insertionOrder]
  have le: "voteCount ?L 3 \<le> voteCount ?L (descHeadIndex insertionOrder ?L)"
    by (rule T [of ?L, THEN conjunct1, rule_format])
  let ?M = "[''a B  C  D'', ''abcd C  D'']"
  have ms: "concat (map (descHeadMatches 0) ?M) = [2, 5, 8, 5, 8]"
    by (simp add: regexp_defs)
  have o: "map fst (votesOrder insertionOrder (countVotes ?M)) = [2] @ 5 # [8]"
    unfolding countVotes_fold ms by (simp add: insertionOrder_def)
  have c: "voteCount ?M k = (if k = 2 then 1 else if k = 5 then 2 else if k = 8 then 2 else 0)" for k
    unfolding voteCount_def ms by simp
  have d: "descHeadIndex insertionOrder ?M = 5"
    by (rule T [of ?M, THEN conjunct2, THEN conjunct2, THEN conjunct2, rule_format,
          of "[2]" 5 "[8]", OF o]) (simp_all add: c)
  from valid_insertionOrder i v le o c [of 2] c [of 5] c [of 8] d show ?thesis by simp
qed

text \<open>
  Claim C3 as stated says that the lowest column wins a tie, so that the choice is a
  function of the line group.  In the line \<^verbatim>\<open>" A B"\<close> the columns 1 and 3 have one vote
  each; visiting column 1 first chooses 1, visiting column 3 first chooses 3.
\<close>

theorem split_column_tie_follows_iteration_order:
  "valid_orders insertionOrder \<and> valid_orders (insertionOrder\<lparr>votesOrder := rev\<rparr>) \<and>
   voteCount ['' A B''] 1 = 1 \<and> voteCount ['' A B''] 3 = 1 \<and>
   descHeadIndex insertionOrder ['' A B''] = 1 \<and>
   descHeadIndex (insertionOrder\<lparr>votesOrder := rev\<rparr>) ['' A B''] = 3"
  by (simp add: valid_orders_def insertionOrder_def split_defs regexp_defs voteCount_def)

section \<open>Blank lines and empty strings\<close>

lemma blankPattern_Nil [simp]: "blankPattern []"
  by (simp add: blankPattern_def)

lemma TrimSpace_Nil [simp]: "TrimSpace [] = []"
  by (simp add: TrimSpace_def)

lemma HasPrefix_self [simp]: "HasPrefix m m"
  by (simp add: HasPrefix_def)

lemma TrimPrefix_self [simp]: "TrimPrefix m m = []"
  by (simp add: TrimPrefix_def)

section \<open>Scenario C\<close>

lemma rawLines_append_newline:
  "CHR 0x0A \<notin> set xs \<Longrightarrow> rawLines cur (xs @ CHR 0x0A # rest) = (cur @ xs) # rawLines [] rest"
  by (induction xs arbitrary: cur) auto

lemma TrimLeftSpace_space:
  "asciiSpace a \<Longrightarrow> TrimLeftSpace (a # s) = TrimLeftSpace s"
proof (cases s)
  case Nil
  then show "asciiSpace a \<Longrightarrow> ?thesis" by simp
next
  case (Cons b t)
  then show "asciiSpace a \<Longrightarrow> ?thesis" by (cases t) simp_all
qed

lemma TrimLeftSpace_spaces:
  "TrimLeftSpace (replicate k CHR '' '' @ s) = TrimLeftSpace s"
  by (induction k) (simp_all add: TrimLeftSpace_space asciiSpace_def)

lemma TrimSpace_spaces:
  "TrimSpace (replicate k CHR '' '' @ s) = TrimSpace s"
  by (simp add: TrimSpace_def TrimLeftSpace_spaces)

lemma descHeadMatches_no_upper:
  "\<forall>c\<in>set s. \<not> upperAZ c \<Longrightarrow> descHeadMatches i s = []"
  by (induction i s rule: descHeadMatches.induct) auto

lemma continuation_facts:
  fixes n :: nat
  defines "cont \<equiv> replicate n CHR '' '' @ ''information''"
  assumes "14 \<le> n"
  shows "take 14 cont = replicate 14 CHR '' ''"
    and "drop 14 cont = replicate (n - 14) CHR '' '' @ ''information''"
    and "length cont = n + 11"
    and "CHR 0x0A \<notin> set cont"
    and "\<not> blankPattern cont"
    and "\<not> HasPrefix cont ''Options:''"
    and "dropCR cont = cont"
    and "descHeadMatches 0 cont = []"
proof -
  show "take 14 cont = replicate 14 CHR '' ''" using assms(2) by (simp add: cont_def min_def)
  show "drop 14 cont = replicate (n - 14) CHR '' '' @ ''information''"
    using assms(2) by (simp add: cont_def)
  show "length cont = n + 11" by (simp add: cont_def)
  show "CHR 0x0A \<notin> set cont" by (auto simp: cont_def)
  show "\<not> blankPattern cont" by (simp add: cont_def regexp_defs)
  obtain k where "n = Suc k" using assms(2) by (cases n) simp_all
  then show "\<not> HasPrefix cont ''Options:''" by (simp add: cont_def HasPrefix_def)
  show "dropCR cont = cont" by (simp add: cont_def dropCR_def)
  show "descHeadMatches 0 cont = []"
    by (rule descHeadMatches_no_upper) (auto simp: cont_def upperAZ_def)
qed

lemma scenarioC_lines:
  assumes "14 \<le> n" "n < 65525"
  shows "scanHelpMessage (Command ch d a os ss (scenarioC (replicate n CHR '' '' @ ''information'')))
           [''Options:'']
    = [(''Options:'', [''-h, --help    Print usage'', replicate n CHR '' '' @ ''information''])]"
proof -
  let ?cont = "replicate n CHR '' '' @ ''information''"
  note f = continuation_facts [OF assms(1)]
  have "rawLines [] (scenarioC ?cont)
      = ''Options:'' # rawLines [] (''-h, --help    Print usage\<newline>'' @ ?cont @ ''\<newline>'')"
    by (simp add: scenarioC_def)
  also have "\<dots> = ''Options:'' # ''-h, --help    Print usage'' # rawLines [] (?cont @ ''\<newline>'')"
    by simp
  also have "rawLines [] (?cont @ ''\<newline>'') = [?cont]"
    using rawLines_append_newline [OF f(4), of "[]" "[]"] by simp
  finally have raw: "rawLines [] (scenarioC ?cont)
      = [''Options:'', ''-h, --help    Print usage'', ?cont]" .
  have "ScanLines (scenarioC ?cont) = [''Options:'', ''-h, --help    Print usage'', ?cont]"
    unfolding ScanLines_def raw using assms(2) f(7)
    by (simp add: f(3) MaxScanTokenSize_def dropCR_def)
  then show ?thesis
    using f(5,6)
    by (simp add: scanHelpMessage_def regexp_defs strings_defs)
qed

text \<open>
  Claim C7, as the code has it.  The first line of the options section puts the split
  column at 14, so the name field of the second line is its first 14 bytes.  When the
  second line has \<open>n\<close> spaces before \<^verbatim>\<open>information\<close>, with \<open>14 \<le> n\<close> and \<open>n < 65525\<close>,
  its name field is empty, the line continues the entry before it, and \<^verbatim>\<open>setOptions\<close>
  succeeds with the single option whose description is \<^verbatim>\<open>Print usage information\<close>,
  whatever the order of the map iterations.  The upper bound is that of the scanner: a
  line of \<open>n + 11\<close> bytes is read only when it is shorter than \<^verbatim>\<open>MaxScanTokenSize\<close>,
  65536 bytes.
\<close>

theorem scenario_C_with_indented_continuation:
  assumes "valid_orders ord" and "14 \<le> n" and "n < 65525"
  shows "setOptions ord (Command chain desc number [] subs
                           (scenarioC (replicate n CHR '' '' @ ''information'')))
    = Inr (Command chain desc number [Option ''Print usage information'' ''help'' ''h''] subs
             (scenarioC (replicate n CHR '' '' @ ''information'')), None)"
proof -
  let ?cont = "replicate n CHR '' '' @ ''information''"
  let ?c = "Command chain desc number [] subs (scenarioC ?cont)"
  note f = continuation_facts [OF assms(2)]
  have votes: "countVotes [''-h, --help    Print usage'', ?cont] = [(14, 1)]"
    by (simp add: countVotes_def f(8) regexp_defs)
  have idx: "descHeadIndex ord [''-h, --help    Print usage'', ?cont] = 14"
    using assms(1) by (simp add: descHeadIndex_def votes mostVoted_def)
  have split: "splitDescription ord (scanHelpMessage ?c [''Options:''])
      = Inr [(''Options:'', [(''-h, --help    '', ''Print usage''),
                             (replicate 14 CHR '' '', replicate (n - 14) CHR '' '' @ ''information'')])]"
    using assms(1,2)
    by (simp add: scenarioC_lines [OF assms(2,3)] splitDescription_def idx f(1,2,3))
  have t1: "TrimSpace (replicate 14 CHR '' '') = []"
    using TrimSpace_spaces [of 14 "[]"] by simp
  have t2: "TrimSpace (replicate (n - 14) CHR '' '' @ ''information'') = ''information''"
    unfolding TrimSpace_spaces by (simp add: strings_defs)
  have loop: "setOptionsLoop cs []
      [(''-h, --help    '', ''Print usage''),
       (replicate 14 CHR '' '', replicate (n - 14) CHR '' '' @ ''information'')]
      = ([Option ''Print usage information'' ''help'' ''h''], None)" for cs
  proof -
    have a: "TrimSpace ''-h, --help    '' = ''-h, --help''" "TrimSpace ''Print usage'' = ''Print usage''"
      by (simp_all add: strings_defs)
    have b: "parseFlags ''-h, --help'' = (''help'', ''h'')"
      by (simp add: parseFlags_def flagStep_def strings_defs)
    show ?thesis
      by (simp add: a b t1 t2 Let_def del: replicate.simps replicate_Suc)
  qed
  show ?thesis
    using assms(1)
    by (simp add: setOptions_def split allPairs_def loop
        del: replicate.simps replicate_Suc setOptionsLoop.simps)
qed

theorem scenario_C_with_indented_continuation_witness:
  "valid_orders insertionOrder \<and> (14::nat) \<le> 16 \<and> (16::nat) < 65525 \<and>
   setOptions insertionOrder
     (Command [''docker''] [] 0 [] [] (scenarioC (replicate 16 CHR '' '' @ ''information'')))
    = Inr (Command [''docker''] [] 0 [Option ''Print usage information'' ''help'' ''h''] []
             (scenarioC (replicate 16 CHR '' '' @ ''information'')), None)"
  using scenario_C_with_indented_continuation [OF valid_insertionOrder, of 16]
    valid_insertionOrder
  by simp

text \<open>
  Claim C7 as stated has the second line \<^verbatim>\<open>"  information"\<close>, of 13 bytes.  The name
  field of that line is not empty: the line ends before the split column, and slicing
  it there panics (the missing bound check of claim C10), so no option is built.
\<close>

theorem scenario_C_as_written_panics:
  "setOptions insertionOrder (Command [''docker''] [] 0 [] [] (scenarioC ''  information''))
    = Inl SliceBoundsOutOfRange"
  by (simp add: scenarioC_def cmd_defs split_defs regexp_defs strings_defs bufio_defs
      insertionOrder_def)

section \<open>One call of Forge\<close>

lemma Forge_Suc:
  assumes "invoke (chain @ [cmd, ''--help'']) = Some msg"
  shows "Forge (Suc depth) invoke ord cmd chain desc =
    (case setOptions ord (setArgument ord (Command (chain @ [cmd]) desc 0 [] [] msg)) of
       Inl p \<Rightarrow> Some (Inl p)
     | Inr (c, Some err) \<Rightarrow> Some (Inr (Some c, Some err))
     | Inr (c, None) \<Rightarrow>
         (case setSubcommands (Forge depth invoke ord) ord c of
            None \<Rightarrow> None
          | Some (Inl p) \<Rightarrow> Some (Inl p)
          | Some (Inr (c, err)) \<Rightarrow> Some (Inr (Some c, err))))"
  using assms by (simp add: Let_def butlast_append)

section \<open>What Forge returns with an error\<close>





section \<open>The order of the entries\<close>

lemma mset_map_permutation:
  "mset ys = mset (map g xs) \<Longrightarrow> \<exists>xs'. mset xs' = mset xs \<and> ys = map g xs'"
proof (induction ys arbitrary: xs)
  case Nil
  then show ?case by simp
next
  case (Cons y ys)
  have "y \<in> set (y # ys)" by simp
  also have "set (y # ys) = set (map g xs)" using Cons.prems by (rule mset_eq_setD)
  finally obtain x where x: "x \<in> set xs" "g x = y" by auto
  have "mset xs = add_mset x (mset (remove1 x xs))" using x(1) by simp
  then have "image_mset g (mset xs) = image_mset g (add_mset x (mset (remove1 x xs)))"
    by (rule arg_cong)
  then have E: "mset (map g xs) = add_mset y (mset (map g (remove1 x xs)))"
    by (simp only: mset_map image_mset_add_mset x(2))
  have "add_mset y (mset ys) = mset (map g xs)" using Cons.prems by simp
  also note E
  finally have "mset ys = mset (map g (remove1 x xs))"
    by (simp only: add_mset_add_mset_same_iff)
  from Cons.IH [OF this] obtain xs' where xs': "mset xs' = mset (remove1 x xs)" "ys = map g xs'"
    by blast
  have "mset (x # xs') = add_mset x (mset (remove1 x xs))"
    by (simp only: mset.simps xs'(1))
  also have "\<dots> = mset xs" using x(1) by simp
  finally have "mset (x # xs') = mset xs" .
  moreover have "y # ys = map g (x # xs')"
    by (simp only: list.map x(2) xs'(2) [symmetric])
  ultimately show ?case by (intro exI [of _ "x # xs'"] conjI)
qed

lemma mapAppend_keys:
  "map fst (mapAppend m k x) = (if k \<in> fst ` set m then map fst m else map fst m @ [k])"
  by (induction m) fastforce+

lemma mapAppend_fresh:
  "k \<notin> fst ` set m \<Longrightarrow> mapAppend m k x = m @ [(k, [x])]"
  by (induction m) auto

lemma mapAppend_last:
  "k \<notin> fst ` set m \<Longrightarrow> mapAppend (m @ [(k, xs)]) k x = m @ [(k, xs @ [x])]"
  by (induction m) auto

lemma map_of_mapAppend:
  "map_of (mapAppend m k x) k' =
     (if k' = k then Some ((case map_of m k of None \<Rightarrow> [] | Some xs \<Rightarrow> xs) @ [x]) else map_of m k')"
  by (induction m) auto

lemma scanLoop_distinct:
  "distinct (map fst lm) \<Longrightarrow> distinct (map fst (scanLoop markers cur lm lines))"
proof (induction lines arbitrary: cur lm)
  case Nil
  then show ?case by simp
next
  case (Cons line rest)
  have d: "distinct (map fst (mapAppend lm k x))" for k x
    using Cons.prems by (simp add: mapAppend_keys)
  show ?case
  proof (cases "blankPattern line")
    case True
    with Cons.IH [OF Cons.prems] show ?thesis by simp
  next
    case False
    show ?thesis
    proof (cases "find (HasPrefix line) markers")
      case None
      with False Cons.IH [OF Cons.prems] Cons.IH [OF d] show ?thesis by simp
    next
      case (Some marker)
      with False Cons.IH [OF Cons.prems] Cons.IH [OF d] show ?thesis by (simp add: Let_def)
    qed
  qed
qed

lemma scanHelpMessage_distinct: "distinct (map fst (scanHelpMessage c markers))"
  by (simp add: scanHelpMessage_def scanLoop_distinct)

lemma linesOf_mapAppend:
  "linesOf (mapAppend m k x) k' = (if k' = k then linesOf m k @ [x] else linesOf m k')"
  by (simp add: linesOf_def map_of_mapAppend)

lemma find_None_HasPrefix:
  "find (HasPrefix line) markers = None \<Longrightarrow> m \<in> set markers \<Longrightarrow> \<not> HasPrefix line m"
  by (auto simp: find_None_iff)

lemma scanLoop_subseq:
  assumes "cur = [] \<or> cur \<in> set markers"
  shows "\<exists>ys. linesOf (scanLoop markers cur lm lines) k = linesOf lm k @ ys \<and>
    subseq ys (map (\<lambda>l. TrimPrefix l k) lines)"
  using assms
proof (induction lines arbitrary: cur lm)
  case Nil
  then show ?case by simp
next
  case (Cons line rest)
  have skip: "\<exists>ys. linesOf (scanLoop markers cur' lm rest) k = linesOf lm k @ ys \<and>
      subseq ys (map (\<lambda>l. TrimPrefix l k) (line # rest))"
    if "cur' = [] \<or> cur' \<in> set markers" for cur'
    using Cons.IH [OF that, of lm] by auto
  have other: "\<exists>ys. linesOf (scanLoop markers cur' (mapAppend lm k' x) rest) k = linesOf lm k @ ys \<and>
      subseq ys (map (\<lambda>l. TrimPrefix l k) (line # rest))"
    if "cur' = [] \<or> cur' \<in> set markers" "k' \<noteq> k" for cur' k' x
    using Cons.IH [OF that(1), of "mapAppend lm k' x"] that(2)
    by (auto simp: linesOf_mapAppend)
  have same: "\<exists>ys. linesOf (scanLoop markers cur' (mapAppend lm k (TrimPrefix line k)) rest) k
        = linesOf lm k @ ys \<and>
      subseq ys (map (\<lambda>l. TrimPrefix l k) (line # rest))"
    if "cur' = [] \<or> cur' \<in> set markers" for cur'
  proof -
    from Cons.IH [OF that, of "mapAppend lm k (TrimPrefix line k)"] obtain ys where
      "linesOf (scanLoop markers cur' (mapAppend lm k (TrimPrefix line k)) rest) k
         = linesOf lm k @ TrimPrefix line k # ys"
      "subseq ys (map (\<lambda>l. TrimPrefix l k) rest)"
      by (auto simp: linesOf_mapAppend)
    then show ?thesis by (intro exI [of _ "TrimPrefix line k # ys"]) simp
  qed
  show ?case
  proof (cases "blankPattern line")
    case True
    with skip [of "[]"] show ?thesis by simp
  next
    case False
    show ?thesis
    proof (cases "find (HasPrefix line) markers")
      case (Some marker)
      then have m: "marker \<in> set markers" by (auto simp: find_Some_iff)
      show ?thesis
      proof (cases "TrimSpace (TrimPrefix line marker) = []")
        case True
        with False Some skip [of marker] m show ?thesis by (simp add: Let_def)
      next
        case nonempty: False
        show ?thesis
        proof (cases "marker = k")
          case True
          with False Some nonempty same [of marker] m show ?thesis by (simp add: Let_def)
        next
          case neq: False
          with False Some nonempty other [of marker marker] m show ?thesis by (simp add: Let_def)
        qed
      qed
    next
      case None
      show ?thesis
      proof (cases "cur = []")
        case True
        with False None skip [of cur] show ?thesis by simp
      next
        case cur: False
        with Cons.prems have in_markers: "cur \<in> set markers" by simp
        show ?thesis
        proof (cases "cur = k")
          case True
          from find_None_HasPrefix [OF None in_markers] have "TrimPrefix line k = line"
            by (simp add: TrimPrefix_def True)
          with False None cur True same [of cur] Cons.prems show ?thesis by simp
        next
          case neq: False
          with False None cur other [of cur cur] Cons.prems show ?thesis by simp
        qed
      qed
    qed
  qed
qed

lemma scanHelpMessage_subseq:
  assumes "(k, ls) \<in> set (scanHelpMessage c markers)"
  shows "subseq ls (map (\<lambda>l. TrimPrefix l k) (ScanLines (helpMessage c)))"
proof -
  from assms have "map_of (scanHelpMessage c markers) k = Some ls"
    by (simp add: scanHelpMessage_distinct)
  then have "linesOf (scanHelpMessage c markers) k = ls" by (simp add: linesOf_def)
  with scanLoop_subseq [of "[]" markers "[]" "ScanLines (helpMessage c)" k]
  show ?thesis by (simp add: scanHelpMessage_def linesOf_def)
qed

lemma splitLines_started:
  assumes "key \<notin> fst ` set pm" "splitLines i key (pm @ [(key, acc)]) ls = Inr pm'"
  shows "pm' = pm @ [(key, acc @ map (\<lambda>line. (take i line, drop i line)) ls)]"
  using assms(2)
proof (induction ls arbitrary: acc)
  case Nil
  then show ?case by simp
next
  case (Cons line rest)
  from Cons.prems have le: "\<not> i > length line" by (auto split: if_splits)
  with Cons.prems
  have "splitLines i key (pm @ [(key, acc @ [(take i line, drop i line)])]) rest = Inr pm'"
    by (simp add: mapAppend_last [OF assms(1)])
  from Cons.IH [OF this] show ?case by simp
qed

lemma splitLines_fresh:
  assumes "key \<notin> fst ` set pm" "splitLines i key pm ls = Inr pm'"
  shows "pm' = (if ls = [] then pm
                else pm @ [(key, map (\<lambda>line. (take i line, drop i line)) ls)])"
proof (cases ls)
  case Nil
  with assms(2) show ?thesis by simp
next
  case (Cons line rest)
  from assms(2) Cons have le: "\<not> i > length line" by (auto split: if_splits)
  with assms(2) Cons
  have "splitLines i key (pm @ [(key, [(take i line, drop i line)])]) rest = Inr pm'"
    by (simp add: mapAppend_fresh [OF assms(1)])
  from splitLines_started [OF assms(1) this] Cons show ?thesis by simp
qed

lemma splitGroups_result:
  assumes "distinct (map fst pm @ map fst groups)"
    and "\<forall>entry\<in>set groups. snd entry \<noteq> []"
    and "splitGroups ord pm groups = Inr pm'"
  shows "pm' = pm @ map (splitEntry ord) groups"
  using assms
proof (induction groups arbitrary: pm)
  case Nil
  then show ?case by simp
next
  case (Cons entry rest)
  obtain key ls where entry: "entry = (key, ls)" by (cases entry)
  from Cons.prems(3) obtain pm1 where
    pm1: "splitLines (descHeadIndex ord ls) key pm ls = Inr pm1"
    and rest: "splitGroups ord pm1 rest = Inr pm'"
    by (auto simp: entry split: sum.splits)
  from Cons.prems(1) have fresh: "key \<notin> fst ` set pm" by (auto simp: entry)
  from Cons.prems(2) have "ls \<noteq> []" by (simp add: entry)
  with splitLines_fresh [OF fresh pm1]
  have pm1_eq: "pm1 = pm @ [splitEntry ord entry]" by (simp add: splitEntry_def entry)
  have "distinct (map fst pm1 @ map fst rest)"
    using Cons.prems(1) by (auto simp: pm1_eq splitEntry_def entry)
  from Cons.IH [OF this _ rest] Cons.prems(2) show ?case by (simp add: pm1_eq)
qed

lemma mapAppend_nonempty:
  "\<forall>entry\<in>set m. snd entry \<noteq> [] \<Longrightarrow> \<forall>entry\<in>set (mapAppend m k x). snd entry \<noteq> []"
  by (induction m) (fastforce split: if_splits)+

lemma scanLoop_nonempty:
  "\<forall>entry\<in>set lm. snd entry \<noteq> [] \<Longrightarrow>
   \<forall>entry\<in>set (scanLoop markers cur lm lines). snd entry \<noteq> []"
proof (induction lines arbitrary: cur lm)
  case Nil
  then show ?case by simp
next
  case (Cons line rest)
  have a: "\<forall>entry\<in>set (mapAppend lm k x). snd entry \<noteq> []" for k x
    using Cons.prems by (rule mapAppend_nonempty)
  show ?case
  proof (cases "blankPattern line")
    case True
    with Cons.IH [OF Cons.prems] show ?thesis by simp
  next
    case False
    show ?thesis
    proof (cases "find (HasPrefix line) markers")
      case None
      with False Cons.IH [OF Cons.prems] Cons.IH [OF a] show ?thesis by simp
    next
      case (Some marker)
      with False Cons.IH [OF Cons.prems] Cons.IH [OF a] show ?thesis by (simp add: Let_def)
    qed
  qed
qed

lemma scanHelpMessage_nonempty: "\<forall>entry\<in>set (scanHelpMessage c markers). snd entry \<noteq> []"
  using scanLoop_nonempty [of "[]"] by (simp add: scanHelpMessage_def)

lemma allPairs_groups:
  assumes "valid_orders ord"
    and "splitDescription ord (scanHelpMessage c markers) = Inr pairsMap"
  shows "\<exists>groups. mset groups = mset (scanHelpMessage c markers) \<and>
    allPairs ord pairsMap = concat (map (snd \<circ> splitEntry ord) groups)"
proof -
  let ?lm = "scanHelpMessage c markers"
  let ?L = "linesOrder ord ?lm"
  have perm: "mset ?L = mset ?lm" using assms(1) by (simp add: valid_orders_def)
  have "distinct (map fst ?L)"
    using scanHelpMessage_distinct [of c markers] perm
    by (metis distinct_map mset_eq_imp_distinct_iff mset_eq_setD)
  moreover have "\<forall>entry\<in>set ?L. snd entry \<noteq> []"
    using scanHelpMessage_nonempty [of c markers] mset_eq_setD [OF perm] by simp
  ultimately have pm: "pairsMap = map (splitEntry ord) ?L"
    using splitGroups_result [of "[]" ?L ord pairsMap] assms(2)
    by (simp add: splitDescription_def)
  have "mset (pairsOrder ord pairsMap) = mset (map (splitEntry ord) ?L)"
    using assms(1) by (simp add: valid_orders_def pm)
  from mset_map_permutation [OF this] obtain groups where
    groups: "mset groups = mset ?L" "pairsOrder ord pairsMap = map (splitEntry ord) groups"
    by blast
  show ?thesis
    using groups perm by (intro exI [of _ groups]) (simp add: allPairs_def)
qed

lemma mapAppend_key_iff:
  "k' \<in> fst ` set (mapAppend m k x) \<longleftrightarrow> k' = k \<or> k' \<in> fst ` set m"
proof -
  have "set (map fst (mapAppend m k x)) = insert k (set (map fst m))"
    unfolding mapAppend_keys by auto
  then show ?thesis by auto
qed

lemma map_butlast_snoc:
  assumes "xs \<noteq> []" "f y = f (last xs)"
  shows "map f (butlast xs @ [y]) = map f xs"
proof -
  have "map f (butlast xs @ [y]) = map f (butlast xs @ [last xs])"
    using assms(2) by simp
  also have "\<dots> = map f xs" using assms(1) by simp
  finally show ?thesis .
qed

lemma scanLoop_keys:
  "k \<in> fst ` set (scanLoop markers cur lm lines) \<Longrightarrow>
     k \<in> fst ` set lm \<or> k \<in> set markers \<or> (k = cur \<and> cur \<noteq> [])"
proof (induction lines arbitrary: cur lm)
  case Nil
  then show ?case by simp
next
  case (Cons line rest)
  show ?case
  proof (cases "blankPattern line")
    case True
    with Cons.prems have "k \<in> fst ` set (scanLoop markers [] lm rest)" by simp
    from Cons.IH [OF this] show ?thesis by blast
  next
    case False
    show ?thesis
    proof (cases "find (HasPrefix line) markers")
      case None
      show ?thesis
      proof (cases "cur = []")
        case True
        with False None Cons.prems have "k \<in> fst ` set (scanLoop markers cur lm rest)" by simp
        from Cons.IH [OF this] show ?thesis by blast
      next
        case cur: False
        with False None Cons.prems
        have "k \<in> fst ` set (scanLoop markers cur (mapAppend lm cur line) rest)" by simp
        from Cons.IH [OF this] cur show ?thesis unfolding mapAppend_key_iff by blast
      qed
    next
      case (Some marker)
      then have m: "marker \<in> set markers" by (auto simp: find_Some_iff)
      show ?thesis
      proof (cases "TrimSpace (TrimPrefix line marker) = []")
        case True
        with False Some Cons.prems have "k \<in> fst ` set (scanLoop markers marker lm rest)"
          by (simp add: Let_def)
        from Cons.IH [OF this] m show ?thesis by blast
      next
        case nonempty: False
        with False Some Cons.prems
        have "k \<in> fst ` set (scanLoop markers marker
                (mapAppend lm marker (TrimPrefix line marker)) rest)"
          by (simp add: Let_def)
        from Cons.IH [OF this] m show ?thesis unfolding mapAppend_key_iff by blast
      qed
    qed
  qed
qed

lemma scanHelpMessage_one_marker:
  "scanHelpMessage c [m] = [] \<or> (\<exists>ls. scanHelpMessage c [m] = [(m, ls)])"
proof -
  let ?lm = "scanHelpMessage c [m]"
  have keys: "set (map fst ?lm) \<subseteq> {m}"
    using scanLoop_keys [of _ "[m]" "[]" "[]" "ScanLines (helpMessage c)"]
    by (auto simp: scanHelpMessage_def)
  have d: "distinct (map fst ?lm)" by (rule scanHelpMessage_distinct)
  show ?thesis
  proof (cases ?lm)
    case Nil
    then show ?thesis by simp
  next
    case (Cons e es)
    with keys have e: "fst e = m" and es: "set (map fst es) \<subseteq> {m}" by auto
    from d Cons e have "m \<notin> set (map fst es)" by auto
    with es have "es = []" by (cases es) auto
    with Cons e show ?thesis by (cases e) auto
  qed
qed

lemma allPairs_one_marker:
  assumes "valid_orders ord"
    and "splitDescription ord (scanHelpMessage c [m]) = Inr pairsMap"
  shows "allPairs ord pairsMap = concat (map (snd \<circ> splitEntry ord) (scanHelpMessage c [m]))"
proof -
  from allPairs_groups [OF assms] obtain groups where
    g: "mset groups = mset (scanHelpMessage c [m])"
      "allPairs ord pairsMap = concat (map (snd \<circ> splitEntry ord) groups)"
    by blast
  have "groups = scanHelpMessage c [m]"
  proof (cases "scanHelpMessage c [m] = []")
    case True
    with g(1) show ?thesis by simp
  next
    case False
    with scanHelpMessage_one_marker [of c m] obtain ls where
      ls: "scanHelpMessage c [m] = [(m, ls)]" by blast
    from g(1) have "mset groups = {#(m, ls)#}" unfolding ls by simp
    then have "groups = [(m, ls)]" by simp
    with ls show ?thesis by simp
  qed
  with g(2) show ?thesis by simp
qed

lemma setOptionsLoop_names:
  assumes "setOptionsLoop cs opts pairs = (opts', None)"
  shows "map (\<lambda>opt. (Long opt, Short opt)) opts'
    = map (\<lambda>opt. (Long opt, Short opt)) opts
      @ map parseFlags (filter (\<lambda>name. name \<noteq> []) (map (\<lambda>p. TrimSpace (fst p)) pairs))"
  using assms
proof (induction pairs arbitrary: opts)
  case Nil
  then show ?case by simp
next
  case (Cons pair rest)
  show ?case
  proof (cases "TrimSpace (fst pair) = []")
    case True
    with Cons.prems have ne: "opts \<noteq> []" by (auto simp: Let_def split: prod.splits)
    let ?opts = "butlast opts @ [Option (Option.Desc (last opts) @ '' '' @ TrimSpace (snd pair))
                        (Long (last opts)) (Short (last opts))]"
    from Cons.prems True ne have "setOptionsLoop cs ?opts rest = (opts', None)"
      by (simp add: Let_def split: prod.splits)
    from Cons.IH [OF this]
    have "map (\<lambda>opt. (Long opt, Short opt)) opts'
      = map (\<lambda>opt. (Long opt, Short opt)) ?opts
        @ map parseFlags (filter (\<lambda>name. name \<noteq> []) (map (\<lambda>p. TrimSpace (fst p)) rest))" .
    moreover have "map (\<lambda>opt. (Long opt, Short opt)) ?opts = map (\<lambda>opt. (Long opt, Short opt)) opts"
      by (rule map_butlast_snoc [OF ne]) simp
    ultimately show ?thesis using True by (simp del: map_append)
  next
    case False
    obtain long short where p: "parseFlags (TrimSpace (fst pair)) = (long, short)"
      by (cases "parseFlags (TrimSpace (fst pair))")
    let ?opts = "opts @ [Option (TrimSpace (snd pair)) long short]"
    from Cons.prems False p have "setOptionsLoop cs ?opts rest = (opts', None)"
      by (simp add: Let_def)
    from Cons.IH [OF this] False p show ?thesis by simp
  qed
qed

lemma setSubcommandsLoop_names:
  assumes "setSubcommandsLoop (Forge depth invoke ord) c pairs = Some (Inr (c', None))"
  shows "map (\<lambda>s. last (Chain s)) (Subcommands c')
    = map (\<lambda>s. last (Chain s)) (Subcommands c)
      @ filter (\<lambda>name. name \<noteq> []) (map (\<lambda>p. TrimSpace (fst p)) pairs)"
  using assms
proof (induction pairs arbitrary: c)
  case Nil
  then show ?case by simp
next
  case (Cons pair rest)
  let ?subs = "Subcommands c"
  show ?case
  proof (cases "TrimSpace (fst pair) = []")
    case True
    with Cons.prems have ne: "?subs \<noteq> []" by (auto simp: Let_def)
    let ?last = "Command (Chain (last ?subs)) (Command.Desc (last ?subs) @ '' '' @ TrimSpace (snd pair))
                           (Arguments (last ?subs)) (Options (last ?subs))
                           (Subcommands (last ?subs)) (helpMessage (last ?subs))"
    let ?c = "Command (Chain c) (Command.Desc c) (Arguments c) (Options c)
                (butlast ?subs @ [?last]) (helpMessage c)"
    from Cons.prems True ne have "setSubcommandsLoop (Forge depth invoke ord) ?c rest
        = Some (Inr (c', None))"
      by (simp add: Let_def)
    from Cons.IH [OF this]
    have "map (\<lambda>s. last (Chain s)) (Subcommands c')
      = map (\<lambda>s. last (Chain s)) (butlast ?subs @ [?last])
        @ filter (\<lambda>name. name \<noteq> []) (map (\<lambda>p. TrimSpace (fst p)) rest)"
      by (simp del: map_append)
    moreover have "map (\<lambda>s. last (Chain s)) (butlast ?subs @ [?last]) = map (\<lambda>s. last (Chain s)) ?subs"
      by (rule map_butlast_snoc [OF ne]) simp
    ultimately show ?thesis using True by (simp del: map_append)
  next
    case False
    let ?cmd = "TrimSpace (fst pair)"
    from Cons.prems False obtain sub where
      sub: "Forge depth invoke ord ?cmd (Chain c) (TrimSpace (snd pair)) = Some (Inr (Some sub, None))"
      and rest: "setSubcommandsLoop (Forge depth invoke ord)
          (Command (Chain c) (Command.Desc c) (Arguments c) (Options c) (?subs @ [sub])
             (helpMessage c)) rest = Some (Inr (c', None))"
      by (auto simp: Let_def split: option.splits sum.splits prod.splits)
    from Forge_fields(1) [OF sub] have "last (Chain sub) = ?cmd" by simp
    with Cons.IH [OF rest] False show ?thesis by simp
  qed
qed

lemma entry_names':
  "filter (\<lambda>name. name \<noteq> [])
     (map (\<lambda>p. TrimSpace (fst p)) (concat (map (snd \<circ> splitEntry ord) groups)))
    = concat (map (entryNames ord) groups)"
  by (induction groups) (simp_all add: entryNames_def splitEntry_def comp_def)

lemma options_in_order:
  assumes "valid_orders ord" "Options c = []" "setOptions ord c = Inr (c', None)"
  shows "map (\<lambda>opt. (Long opt, Short opt)) (Options c')
    = map parseFlags (concat (map (entryNames ord) (scanHelpMessage c [''Options:''])))"
proof -
  from assms(3) obtain pairsMap where
    pm: "splitDescription ord (scanHelpMessage c [''Options:'']) = Inr pairsMap"
    and loop: "setOptionsLoop (ChainString c) (Options c) (allPairs ord pairsMap) = (Options c', None)"
    by (auto simp: setOptions_def split: sum.splits prod.splits)
  from setOptionsLoop_names [OF loop] assms(2)
  have "map (\<lambda>opt. (Long opt, Short opt)) (Options c')
    = map parseFlags (filter (\<lambda>name. name \<noteq> [])
        (map (\<lambda>p. TrimSpace (fst p)) (allPairs ord pairsMap)))" by simp
  then show ?thesis
    unfolding allPairs_one_marker [OF assms(1) pm] entry_names' .
qed

lemma subcommands_in_order:
  assumes "valid_orders ord" "Subcommands c = []"
    and "setSubcommands (Forge depth invoke ord) ord c = Some (Inr (c', None))"
  shows "\<exists>groups.
    mset groups
      = mset (scanHelpMessage c [''Commands:'', ''Available Commands:'', ''Management Commands:'']) \<and>
    map (\<lambda>s. last (Chain s)) (Subcommands c') = concat (map (entryNames ord) groups)"
proof -
  let ?markers = "[''Commands:'', ''Available Commands:'', ''Management Commands:'']"
  from assms(3) obtain pairsMap where
    pm: "splitDescription ord (scanHelpMessage c ?markers) = Inr pairsMap"
    and loop: "setSubcommandsLoop (Forge depth invoke ord) c (allPairs ord pairsMap)
      = Some (Inr (c', None))"
    by (auto simp: setSubcommands_def split: sum.splits)
  from setSubcommandsLoop_names [OF loop] assms(2)
  have names: "map (\<lambda>s. last (Chain s)) (Subcommands c')
    = filter (\<lambda>name. name \<noteq> []) (map (\<lambda>p. TrimSpace (fst p)) (allPairs ord pairsMap))"
    by simp
  from allPairs_groups [OF assms(1) pm] obtain groups where
    g: "mset groups = mset (scanHelpMessage c ?markers)"
      "allPairs ord pairsMap = concat (map (snd \<circ> splitEntry ord) groups)"
    by blast
  from names g show ?thesis
    unfolding g(2) entry_names' by blast
qed

lemma scenarioB_usage:
  "scanHelpMessage (Command ch d a os ss scenarioB) [''Usage:'']
     = [(''Usage:'', [''  docker network COMMAND''])]"
  by (simp add: scenarioB_def scanHelpMessage_def bufio_defs regexp_defs strings_defs)

lemma scenarioB_options:
  "scanHelpMessage (Command ch d a os ss scenarioB) [''Options:''] = []"
  by (simp add: scenarioB_def scanHelpMessage_def bufio_defs regexp_defs strings_defs)

lemma scenarioB_commands:
  "scanHelpMessage (Command ch d a os ss scenarioB)
     [''Commands:'', ''Available Commands:'', ''Management Commands:'']
   = [(''Commands:'', [''connect  Connect a container to a network'',
                       ''create   Create a network''])]"
  by (simp add: scenarioB_def scanHelpMessage_def bufio_defs regexp_defs strings_defs)

lemma scenarioB_setArgument:
  assumes "valid_orders ord"
  shows "setArgument ord (Command [''docker'', ''network''] desc 0 [] [] scenarioB)
    = Command [''docker'', ''network''] desc 0 [] [] scenarioB"
  using assms
  by (simp add: setArgument_def usageLines_def scenarioB_usage ChainString_def strings_defs
      regexp_defs uppercasedCase_def lowercasedCase_def)

lemma scenarioB_setOptions:
  assumes "valid_orders ord"
  shows "setOptions ord (Command [''docker'', ''network''] desc 0 [] [] scenarioB)
    = Inr (Command [''docker'', ''network''] desc 0 [] [] scenarioB, None)"
  using assms
  by (simp add: setOptions_def scenarioB_options splitDescription_def allPairs_def)

lemma scenarioB_pairs:
  assumes "valid_orders ord"
  shows "splitDescription ord
      [(''Commands:'', [''connect  Connect a container to a network'',
                        ''create   Create a network''])]
    = Inr [(''Commands:'', [(''connect  '', ''Connect a container to a network''),
                            (''create   '', ''Create a network'')])]"
  using assms by (simp add: split_defs regexp_defs)

lemma scenarioB_forge:
  assumes "valid_orders ord"
    and "invoke [''docker'', ''network'', ''--help''] = Some scenarioB"
    and "Forge (Suc depth) invoke ord ''connect'' [''docker'', ''network'']
           ''Connect a container to a network'' = Some (Inr (Some s1, None))"
    and "Forge (Suc depth) invoke ord ''create'' [''docker'', ''network'']
           ''Create a network'' = Some (Inr (Some s2, None))"
  shows "Forge (Suc (Suc depth)) invoke ord ''network'' [''docker''] desc
    = Some (Inr (Some (Command [''docker'', ''network''] desc 0 [] [s1, s2] scenarioB), None))"
proof -
  have t: "TrimSpace ''connect  '' = ''connect''" "TrimSpace ''create   '' = ''create''"
    "TrimSpace ''Connect a container to a network'' = ''Connect a container to a network''"
    "TrimSpace ''Create a network'' = ''Create a network''"
    by (simp_all add: strings_defs)
  have loop: "setSubcommandsLoop (Forge (Suc depth) invoke ord)
      (Command [''docker'', ''network''] desc 0 [] [] scenarioB)
      [(''connect  '', ''Connect a container to a network''), (''create   '', ''Create a network'')]
    = Some (Inr (Command [''docker'', ''network''] desc 0 [] [s1, s2] scenarioB, None))"
    by (simp add: t assms(3,4) Let_def del: Forge.simps)
  have subs: "setSubcommands (Forge (Suc depth) invoke ord) ord
      (Command [''docker'', ''network''] desc 0 [] [] scenarioB)
    = Some (Inr (Command [''docker'', ''network''] desc 0 [] [s1, s2] scenarioB, None))"
    using assms(1)
    by (simp add: setSubcommands_def scenarioB_commands scenarioB_pairs allPairs_def loop
        del: Forge.simps setSubcommandsLoop.simps)
  have i: "invoke ([''docker''] @ [''network'', ''--help'']) = Some scenarioB"
    using assms(2) by simp
  show ?thesis
    unfolding Forge_Suc [where invoke = invoke and chain = "[''docker'']" and cmd = "''network''"
        and msg = scenarioB, OF i]
    using assms(1)
    by (simp add: scenarioB_setArgument scenarioB_setOptions subs del: Forge.simps)
qed

section \<open>Blank lines and markers that come again\<close>

text \<open>One line of the scan: the marker that is current after it, and what it does to the
  map, which is nothing or one \<^verbatim>\<open>append\<close>.\<close>

lemma scanLoop_step:
  "\<exists>cur1 u. (\<forall>lm ys. scanLoop markers cur lm (line # ys) = scanLoop markers cur1 (u lm) ys) \<and>
     (\<forall>lm k. linesOf (u lm) k = linesOf lm k @ linesOf (u []) k)"
proof -
  have same: "\<forall>lm k. linesOf ((\<lambda>lm. lm) lm) k = linesOf lm k @ linesOf ((\<lambda>lm. lm) []) k"
    by (simp add: linesOf_def)
  have app: "\<forall>lm k. linesOf ((\<lambda>lm. mapAppend lm key x) lm) k
      = linesOf lm k @ linesOf ((\<lambda>lm. mapAppend lm key x) []) k" for key :: string and x
    by (simp add: linesOf_mapAppend) (simp add: linesOf_def)
  consider (blank) "blankPattern line"
    | (marker) marker where "\<not> blankPattern line" "find (HasPrefix line) markers = Some marker"
    | (idle) "\<not> blankPattern line" "find (HasPrefix line) markers = None" "cur = []"
    | (line) "\<not> blankPattern line" "find (HasPrefix line) markers = None" "cur \<noteq> []"
    by (cases "find (HasPrefix line) markers") auto
  then show ?thesis
  proof cases
    case blank
    show ?thesis
      by (rule exI [of _ "[]"], rule exI [of _ "\<lambda>lm. lm"]) (use blank same in simp)
  next
    case marker
    show ?thesis
    proof (cases "TrimSpace (TrimPrefix line marker) = []")
      case True
      show ?thesis
        by (rule exI [of _ marker], rule exI [of _ "\<lambda>lm. lm"]) (use marker True same in simp)
    next
      case False
      show ?thesis
        by (rule exI [of _ marker],
            rule exI [of _ "\<lambda>lm. mapAppend lm marker (TrimPrefix line marker)"])
          (use marker False app [of marker "TrimPrefix line marker"] in simp)
    qed
  next
    case idle
    show ?thesis
      by (rule exI [of _ cur], rule exI [of _ "\<lambda>lm. lm"]) (use idle same in simp)
  next
    case line
    show ?thesis
      by (rule exI [of _ cur], rule exI [of _ "\<lambda>lm. mapAppend lm cur line"])
        (use line app [of cur line] in simp)
  qed
qed

lemma scanLoop_append:
  "\<exists>cur'. \<forall>xs. scanLoop markers cur lm (pre @ xs) = scanLoop markers cur' (scanLoop markers cur lm pre) xs"
proof (induction pre arbitrary: cur lm)
  case Nil
  show ?case by (rule exI [of _ cur]) simp
next
  case (Cons line pre)
  from scanLoop_step [of markers cur line] obtain cur1 u where
    s: "\<And>lm ys. scanLoop markers cur lm (line # ys) = scanLoop markers cur1 (u lm) ys"
    by blast
  from Cons.IH [of cur1 "u lm"] obtain cur' where
    "\<forall>xs. scanLoop markers cur1 (u lm) (pre @ xs)
       = scanLoop markers cur' (scanLoop markers cur1 (u lm) pre) xs" ..
  then have "\<forall>xs. scanLoop markers cur lm ((line # pre) @ xs)
       = scanLoop markers cur' (scanLoop markers cur lm (line # pre)) xs"
    by (simp only: append_Cons s) simp
  then show ?case ..
qed

lemma scanLoop_linesOf:
  "linesOf (scanLoop markers cur lm xs) k = linesOf lm k @ linesOf (scanLoop markers cur [] xs) k"
proof (induction xs arbitrary: cur lm)
  case Nil
  show ?case by (simp add: linesOf_def)
next
  case (Cons line xs)
  from scanLoop_step [of markers cur line] obtain cur1 u where
    s: "\<And>lm ys. scanLoop markers cur lm (line # ys) = scanLoop markers cur1 (u lm) ys"
    and u: "\<And>lm k. linesOf (u lm) k = linesOf lm k @ linesOf (u []) k"
    by blast
  have "linesOf (scanLoop markers cur lm (line # xs)) k
      = linesOf (u lm) k @ linesOf (scanLoop markers cur1 [] xs) k"
    unfolding s by (rule Cons.IH)
  also have "\<dots> = linesOf lm k @ (linesOf (u []) k @ linesOf (scanLoop markers cur1 [] xs) k)"
    by (simp add: u [of lm])
  also have "linesOf (u []) k @ linesOf (scanLoop markers cur1 [] xs) k
      = linesOf (scanLoop markers cur [] (line # xs)) k"
    unfolding s by (rule Cons.IH [symmetric])
  finally show ?case .
qed

lemma scanLoop_discards:
  assumes "\<forall>l\<in>set dropped. \<forall>m\<in>set markers. \<not> HasPrefix l m"
  shows "scanLoop markers [] lm (dropped @ rest) = scanLoop markers [] lm rest"
  using assms
proof (induction dropped)
  case Nil
  show ?case by simp
next
  case (Cons l dropped)
  then have "find (HasPrefix l) markers = None" by (simp add: find_None_iff)
  with Cons show ?case by simp
qed

lemma scanLoop_after_blank:
  assumes "blankPattern b"
  shows "scanLoop markers cur lm (pre @ b # post)
    = scanLoop markers [] (scanLoop markers cur lm pre) post"
proof -
  from scanLoop_append [of markers cur lm pre] obtain cur' where
    "\<forall>xs. scanLoop markers cur lm (pre @ xs) = scanLoop markers cur' (scanLoop markers cur lm pre) xs" ..
  then have "scanLoop markers cur lm (pre @ b # post)
      = scanLoop markers cur' (scanLoop markers cur lm pre) (b # post)" by blast
  with assms show ?thesis by simp
qed

text \<open>
  Claim C4, as the code has it.  A help text has a blank line \<open>b\<close>, after the lines \<open>pre\<close>
  and before the lines \<open>post\<close>.  The blank line ends the current group: what the scan
  stores for a marker is what it stores from \<open>pre\<close>, followed by what it stores from
  \<open>post\<close> scanned as a text of its own, where no marker is current at the beginning.  So
  the lines that follow the blank line are discarded as long as they begin with no
  marker: the result is that of the text without them.  The map has one entry for a
  marker: the lines under a later occurrence of a marker, after a blank line, are
  appended to the lines of the earlier occurrences.
\<close>

theorem blank_line_ends_group_and_same_marker_merges:
  assumes "ScanLines (helpMessage c) = pre @ b # post" and "blankPattern b"
  shows "linesOf (scanHelpMessage c markers) k
       = linesOf (scanLoop markers [] [] pre) k @ linesOf (scanLoop markers [] [] post) k \<and>
     (\<forall>dropped rest. post = dropped @ rest \<longrightarrow>
        (\<forall>l\<in>set dropped. \<forall>m\<in>set markers. \<not> HasPrefix l m) \<longrightarrow>
        scanHelpMessage c markers = scanLoop markers [] [] (pre @ b # rest)) \<and>
     distinct (map fst (scanHelpMessage c markers))"
proof (intro conjI allI impI)
  show "linesOf (scanHelpMessage c markers) k
       = linesOf (scanLoop markers [] [] pre) k @ linesOf (scanLoop markers [] [] post) k"
    unfolding scanHelpMessage_def assms(1) scanLoop_after_blank [OF assms(2)]
    by (rule scanLoop_linesOf)
  show "scanHelpMessage c markers = scanLoop markers [] [] (pre @ b # rest)"
    if "post = dropped @ rest" "\<forall>l\<in>set dropped. \<forall>m\<in>set markers. \<not> HasPrefix l m"
    for dropped rest
    unfolding scanHelpMessage_def assms(1) scanLoop_after_blank [OF assms(2)] that(1)
    by (rule scanLoop_discards [OF that(2)])
  show "distinct (map fst (scanHelpMessage c markers))"
    by (rule scanHelpMessage_distinct)
qed

theorem blank_line_ends_group_and_same_marker_merges_witness:
  "ScanLines (helpMessage (Command [''docker''] [] 0 [] []
       ''Commands:\<newline>  run   Run a container\<newline> \<newline>See the manual.\<newline>Commands:\<newline>  stop  Stop a container\<newline>''))
     = [''Commands:'', ''  run   Run a container''] @ '' ''
         # [''See the manual.'', ''Commands:'', ''  stop  Stop a container''] \<and>
   blankPattern '' '' \<and>
   linesOf (scanLoop [''Commands:'', ''Available Commands:'', ''Management Commands:''] [] []
       [''Commands:'', ''  run   Run a container'']) ''Commands:''
     = [''  run   Run a container''] \<and>
   linesOf (scanLoop [''Commands:'', ''Available Commands:'', ''Management Commands:''] [] []
       [''See the manual.'', ''Commands:'', ''  stop  Stop a container'']) ''Commands:''
     = [''  stop  Stop a container''] \<and>
   linesOf (scanHelpMessage (Command [''docker''] [] 0 [] []
       ''Commands:\<newline>  run   Run a container\<newline> \<newline>See the manual.\<newline>Commands:\<newline>  stop  Stop a container\<newline>'')
       [''Commands:'', ''Available Commands:'', ''Management Commands:'']) ''Commands:''
     = [''  run   Run a container'', ''  stop  Stop a container''] \<and>
   list_all (\<lambda>l. list_all (\<lambda>m. \<not> HasPrefix l m)
       [''Commands:'', ''Available Commands:'', ''Management Commands:'']) [''See the manual.''] \<and>
   scanHelpMessage (Command [''docker''] [] 0 [] []
       ''Commands:\<newline>  run   Run a container\<newline> \<newline>See the manual.\<newline>Commands:\<newline>  stop  Stop a container\<newline>'')
       [''Commands:'', ''Available Commands:'', ''Management Commands:'']
     = scanLoop [''Commands:'', ''Available Commands:'', ''Management Commands:''] [] []
         ([''Commands:'', ''  run   Run a container''] @ '' ''
            # [''Commands:'', ''  stop  Stop a container''])"
proof -
  let ?c = "Command [''docker''] [] 0 [] []
       ''Commands:\<newline>  run   Run a container\<newline> \<newline>See the manual.\<newline>Commands:\<newline>  stop  Stop a container\<newline>''"
  let ?M = "[''Commands:'', ''Available Commands:'', ''Management Commands:'']"
  have h1: "ScanLines (helpMessage ?c)
     = [''Commands:'', ''  run   Run a container''] @ '' ''
         # [''See the manual.'', ''Commands:'', ''  stop  Stop a container'']"
    by (simp add: bufio_defs)
  have h2: "blankPattern '' ''" by (simp add: regexp_defs)
  have p1: "linesOf (scanLoop ?M [] [] [''Commands:'', ''  run   Run a container'']) ''Commands:''
     = [''  run   Run a container'']"
    by (simp add: linesOf_def regexp_defs strings_defs)
  have p2: "linesOf (scanLoop ?M [] []
       [''See the manual.'', ''Commands:'', ''  stop  Stop a container'']) ''Commands:''
     = [''  stop  Stop a container'']"
    by (simp add: linesOf_def regexp_defs strings_defs)
  have d: "list_all (\<lambda>l. list_all (\<lambda>m. \<not> HasPrefix l m) ?M) [''See the manual.'']"
    by (simp add: strings_defs)
  then have d': "\<forall>l\<in>set [''See the manual.'']. \<forall>m\<in>set ?M. \<not> HasPrefix l m"
    unfolding list_all_iff .
  note T = blank_line_ends_group_and_same_marker_merges [OF h1 h2, of ?M]
  have A: "linesOf (scanHelpMessage ?c ?M) ''Commands:''
     = [''  run   Run a container'', ''  stop  Stop a container'']"
    unfolding T [of "''Commands:''", THEN conjunct1] p1 p2 by simp
  have B: "scanHelpMessage ?c ?M = scanLoop ?M [] []
         ([''Commands:'', ''  run   Run a container''] @ '' ''
            # [''Commands:'', ''  stop  Stop a container''])"
    using T [of "''Commands:''", THEN conjunct2, THEN conjunct1,
        THEN spec [where x = "[''See the manual.'']"],
        THEN spec [where x = "[''Commands:'', ''  stop  Stop a container'']"]] d'
    by simp
  from h1 h2 p1 p2 A d B show ?thesis by (intro conjI)
qed

text \<open>
  Claim C4 as stated says that two occurrences of the same marker with a blank line
  between them give two groups that are not merged.  The map has one entry for the
  marker, with the lines of both.
\<close>

theorem same_marker_after_blank_line_is_one_group:
  "scanHelpMessage (Command [] [] 0 [] [] ''Options:\<newline> a\<newline>\<newline>Options:\<newline> b\<newline>'')
     [''Options:'']
   = [(''Options:'', ['' a'', '' b''])]"
  by (simp add: scanHelpMessage_def bufio_defs regexp_defs strings_defs)

text \<open>
  Claim C2, as the code has it.  The options of a node are the entries of its options
  section in the order of the lines.  The subcommands of a node are the entries of its
  subcommand sections marker by marker: the lines under one marker, from all its
  sections, in the order of the lines, and the markers in the order in which the
  \<^verbatim>\<open>range\<close> statements visit the maps.  The lines that the scan stores for a marker
  are lines of the help text, without the marker, in the order of the text.  For the
  help text of Scenario B, whatever that order, the node has the mask \<open>0\<close> and exactly the
  two subcommands that \<^verbatim>\<open>Forge\<close> returns for \<^verbatim>\<open>connect\<close> and \<^verbatim>\<open>create\<close>, in that
  order.
\<close>

theorem entries_keep_their_order_within_a_marker:
  assumes "valid_orders ord"
  shows "(\<forall>c c'. Options c = [] \<longrightarrow> setOptions ord c = Inr (c', None) \<longrightarrow>
       map (\<lambda>opt. (Long opt, Short opt)) (Options c')
         = map parseFlags (concat (map (entryNames ord) (scanHelpMessage c [''Options:''])))) \<and>
    (\<forall>c c' depth invoke. Subcommands c = [] \<longrightarrow>
       setSubcommands (Forge depth invoke ord) ord c = Some (Inr (c', None)) \<longrightarrow>
       (\<exists>groups.
          mset groups = mset (scanHelpMessage c
             [''Commands:'', ''Available Commands:'', ''Management Commands:'']) \<and>
          map (\<lambda>s. last (Chain s)) (Subcommands c') = concat (map (entryNames ord) groups))) \<and>
    (\<forall>c markers k ls. (k, ls) \<in> set (scanHelpMessage c markers) \<longrightarrow>
       subseq ls (map (\<lambda>l. TrimPrefix l k) (ScanLines (helpMessage c)))) \<and>
    (\<forall>invoke depth desc s1 s2.
       invoke [''docker'', ''network'', ''--help''] = Some scenarioB \<longrightarrow>
       Forge (Suc depth) invoke ord ''connect'' [''docker'', ''network'']
         ''Connect a container to a network'' = Some (Inr (Some s1, None)) \<longrightarrow>
       Forge (Suc depth) invoke ord ''create'' [''docker'', ''network'']
         ''Create a network'' = Some (Inr (Some s2, None)) \<longrightarrow>
       Forge (Suc (Suc depth)) invoke ord ''network'' [''docker''] desc
         = Some (Inr (Some (Command [''docker'', ''network''] desc 0 [] [s1, s2] scenarioB), None)))"
  using options_in_order [OF assms] subcommands_in_order [OF assms] scanHelpMessage_subseq
    scenarioB_forge [OF assms]
  by (intro conjI allI impI) blast+

theorem entries_keep_their_order_within_a_marker_witness:
  "valid_orders insertionOrder \<and>
   networkTool [''docker'', ''network'', ''--help''] = Some scenarioB \<and>
   Forge (Suc 0) networkTool insertionOrder ''connect'' [''docker'', ''network'']
       ''Connect a container to a network''
     = Some (Inr (Some (Command [''docker'', ''network'', ''connect'']
                          ''Connect a container to a network''
                          (ArgumentNumberDockerNetwork OR ArgumentNumberDockerContainer) [] []
                          ''Usage:  docker network connect [OPTIONS] NETWORK CONTAINER\<newline>''), None)) \<and>
   Forge (Suc 0) networkTool insertionOrder ''create'' [''docker'', ''network'']
       ''Create a network''
     = Some (Inr (Some (Command [''docker'', ''network'', ''create''] ''Create a network''
                          ArgumentNumberDockerNetwork [] []
                          ''Usage:  docker network create [OPTIONS] NETWORK\<newline>''), None)) \<and>
   Forge (Suc (Suc 0)) networkTool insertionOrder ''network'' [''docker'']
       ''Manage networks''
     = Some (Inr (Some (Command [''docker'', ''network''] ''Manage networks'' 0 []
          [Command [''docker'', ''network'', ''connect''] ''Connect a container to a network''
             (ArgumentNumberDockerNetwork OR ArgumentNumberDockerContainer) [] []
             ''Usage:  docker network connect [OPTIONS] NETWORK CONTAINER\<newline>'',
           Command [''docker'', ''network'', ''create''] ''Create a network''
             ArgumentNumberDockerNetwork [] []
             ''Usage:  docker network create [OPTIONS] NETWORK\<newline>'']
          scenarioB), None))"
proof -
  have h1: "networkTool [''docker'', ''network'', ''--help''] = Some scenarioB"
    by (simp add: networkTool_def)
  have h2: "Forge (Suc 0) networkTool insertionOrder ''connect'' [''docker'', ''network'']
       ''Connect a container to a network''
     = Some (Inr (Some (Command [''docker'', ''network'', ''connect'']
                          ''Connect a container to a network''
                          (ArgumentNumberDockerNetwork OR ArgumentNumberDockerContainer) [] []
                          ''Usage:  docker network connect [OPTIONS] NETWORK CONTAINER\<newline>''), None))"
    by (simp add: networkTool_def eval_defs flag_defs)
  have h3: "Forge (Suc 0) networkTool insertionOrder ''create'' [''docker'', ''network'']
       ''Create a network''
     = Some (Inr (Some (Command [''docker'', ''network'', ''create''] ''Create a network''
                          ArgumentNumberDockerNetwork [] []
                          ''Usage:  docker network create [OPTIONS] NETWORK\<newline>''), None))"
    by (simp add: networkTool_def eval_defs flag_defs)
  from entries_keep_their_order_within_a_marker [OF valid_insertionOrder] h1 h2 h3
  have "Forge (Suc (Suc 0)) networkTool insertionOrder ''network'' [''docker'']
       ''Manage networks''
     = Some (Inr (Some (Command [''docker'', ''network''] ''Manage networks'' 0 []
          [Command [''docker'', ''network'', ''connect''] ''Connect a container to a network''
             (ArgumentNumberDockerNetwork OR ArgumentNumberDockerContainer) [] []
             ''Usage:  docker network connect [OPTIONS] NETWORK CONTAINER\<newline>'',
           Command [''docker'', ''network'', ''create''] ''Create a network''
             ArgumentNumberDockerNetwork [] []
             ''Usage:  docker network create [OPTIONS] NETWORK\<newline>'']
          scenarioB), None))"
    by blast
  with valid_insertionOrder h1 h2 h3 show ?thesis by blast
qed

text \<open>
  Claim C2 as stated says that the subcommands have the order of the help text.  In the
  help text below the lines are \<^verbatim>\<open>run\<close>, \<^verbatim>\<open>image\<close>, \<^verbatim>\<open>stop\<close>; the first and the
  third stand under \<^verbatim>\<open>Commands:\<close>, so they are one entry of the map.  Visiting that
  entry first gives \<^verbatim>\<open>run\<close>, \<^verbatim>\<open>stop\<close>, \<^verbatim>\<open>image\<close>, visiting it last gives
  \<^verbatim>\<open>image\<close>, \<^verbatim>\<open>run\<close>, \<^verbatim>\<open>stop\<close>; no order gives the order of the text.
\<close>

theorem subcommands_of_two_markers_leave_the_text_order:
  "Forge (Suc (Suc 0)) mixedTool insertionOrder ''docker'' [] []
     = Some (Inr (Some (Command [''docker''] [] 0 []
          [Command [''docker'', ''run''] ''Run a container'' 0 [] [] [],
           Command [''docker'', ''stop''] ''Stop a container'' 0 [] [] [],
           Command [''docker'', ''image''] ''Manage images'' 0 [] [] []]
          mixedHelp), None)) \<and>
   valid_orders (insertionOrder\<lparr>pairsOrder := rev\<rparr>) \<and>
   Forge (Suc (Suc 0)) mixedTool (insertionOrder\<lparr>pairsOrder := rev\<rparr>) ''docker'' [] []
     = Some (Inr (Some (Command [''docker''] [] 0 []
          [Command [''docker'', ''image''] ''Manage images'' 0 [] [] [],
           Command [''docker'', ''run''] ''Run a container'' 0 [] [] [],
           Command [''docker'', ''stop''] ''Stop a container'' 0 [] [] []]
          mixedHelp), None))"
proof -
  have sub: "Forge (Suc 0) mixedTool ord name [''docker''] desc
      = Some (Inr (Some (Command [''docker'', name] desc 0 [] [] []), None))"
    if "name = ''run'' \<or> name = ''image'' \<or> name = ''stop''"
      and "ord = insertionOrder \<or> ord = insertionOrder\<lparr>pairsOrder := rev\<rparr>" for name desc ord
    using that
    by (auto simp: mixedTool_def cmd_defs split_defs bufio_defs insertionOrder_def)
  have scan: "scanHelpMessage (Command ch d a os ss mixedHelp)
       [''Commands:'', ''Available Commands:'', ''Management Commands:'']
     = [(''Commands:'', [''  run     Run a container'', ''  stop    Stop a container'']),
        (''Management Commands:'', [''  image   Manage images''])]" for ch d a os ss
    by (simp add: mixedHelp_def scanHelpMessage_def bufio_defs regexp_defs strings_defs)
  have scanU: "scanHelpMessage (Command ch d a os ss mixedHelp) [''Usage:''] = []" for ch d a os ss
    by (simp add: mixedHelp_def scanHelpMessage_def bufio_defs regexp_defs strings_defs)
  have scanO: "scanHelpMessage (Command ch d a os ss mixedHelp) [''Options:''] = []" for ch d a os ss
    by (simp add: mixedHelp_def scanHelpMessage_def bufio_defs regexp_defs strings_defs)
  have t: "TrimSpace ''  run     '' = ''run''" "TrimSpace ''  stop    '' = ''stop''"
    "TrimSpace ''  image   '' = ''image''"
    "TrimSpace ''Run a container'' = ''Run a container''"
    "TrimSpace ''Stop a container'' = ''Stop a container''"
    "TrimSpace ''Manage images'' = ''Manage images''"
    by (simp_all add: strings_defs)
  have i: "mixedTool [''docker'', ''--help''] = Some mixedHelp" by (simp add: mixedTool_def)
  have A: "Forge (Suc (Suc 0)) mixedTool insertionOrder ''docker'' [] []
     = Some (Inr (Some (Command [''docker''] [] 0 []
          [Command [''docker'', ''run''] ''Run a container'' 0 [] [] [],
           Command [''docker'', ''stop''] ''Stop a container'' 0 [] [] [],
           Command [''docker'', ''image''] ''Manage images'' 0 [] [] []]
          mixedHelp), None))"
    unfolding Forge.simps(2) [of "Suc 0"]
    by (simp add: i setArgument_def usageLines_def scanU setOptions_def scanO setSubcommands_def
        scan split_defs regexp_defs allPairs_def insertionOrder_def t sub Let_def ChainString_def
        del: Forge.simps)
  have B: "Forge (Suc (Suc 0)) mixedTool (insertionOrder\<lparr>pairsOrder := rev\<rparr>) ''docker'' [] []
     = Some (Inr (Some (Command [''docker''] [] 0 []
          [Command [''docker'', ''image''] ''Manage images'' 0 [] [] [],
           Command [''docker'', ''run''] ''Run a container'' 0 [] [] [],
           Command [''docker'', ''stop''] ''Stop a container'' 0 [] [] []]
          mixedHelp), None))"
    unfolding Forge.simps(2) [of "Suc 0"]
    by (simp add: i setArgument_def usageLines_def scanU setOptions_def scanO setSubcommands_def
        scan split_defs regexp_defs allPairs_def insertionOrder_def t sub Let_def ChainString_def
        del: Forge.simps)
  have V: "valid_orders (insertionOrder\<lparr>pairsOrder := rev\<rparr>)"
    by (simp add: valid_orders_def insertionOrder_def)
  from A V B show ?thesis by blast
qed

section \<open>A continuation line before the first entry\<close>

lemma Command_eq_fields:
  "c = Command (Chain c) (Command.Desc c) (Arguments c) (Options c) (Subcommands c) (helpMessage c)"
  by (cases c) simp

lemma splitLines_cases:
  "splitLines i key pm ls =
     (if list_all (\<lambda>line. i \<le> length line) ls
      then Inr (fold (\<lambda>line pm. mapAppend pm key (take i line, drop i line)) ls pm)
      else Inl SliceBoundsOutOfRange)"
  by (induction ls arbitrary: pm) auto

lemma splitGroups_panics:
  "\<not> list_all (fitsSplit ord) groups \<Longrightarrow> splitGroups ord pm groups = Inl SliceBoundsOutOfRange"
proof (induction groups arbitrary: pm)
  case Nil
  then show ?case by simp
next
  case (Cons g groups)
  obtain key ls where g: "g = (key, ls)" by (cases g)
  show ?case
  proof (cases "fitsSplit ord g")
    case True
    with Cons.prems have "\<not> list_all (fitsSplit ord) groups" by simp
    from Cons.IH [OF this] True show ?thesis
      by (simp add: g fitsSplit_def splitLines_cases)
  next
    case False
    then show ?thesis by (simp add: g fitsSplit_def splitLines_cases)
  qed
qed

lemma splitGroups_fits:
  "list_all (fitsSplit ord) groups \<Longrightarrow> \<exists>pm'. splitGroups ord pm groups = Inr pm'"
proof (induction groups arbitrary: pm)
  case Nil
  then show ?case by simp
next
  case (Cons g groups)
  obtain key ls where g: "g = (key, ls)" by (cases g)
  from Cons.prems have f: "fitsSplit ord g" and r: "list_all (fitsSplit ord) groups" by simp_all
  from f have "splitGroups ord pm (g # groups)
      = splitGroups ord
          (fold (\<lambda>line pm. mapAppend pm key (take (descHeadIndex ord ls) line,
                   drop (descHeadIndex ord ls) line)) ls pm) groups"
    by (simp add: g fitsSplit_def splitLines_cases)
  with Cons.IH [OF r] show ?case by simp
qed

lemma fitsSplit_linesOrder:
  assumes "valid_orders ord"
  shows "list_all (fitsSplit ord) (linesOrder ord lm) \<longleftrightarrow> list_all (fitsSplit ord) lm"
  by (simp add: list_all_iff valid_orders_set [OF assms])

lemma splitDescription_panics:
  assumes "valid_orders ord" "\<not> list_all (fitsSplit ord) lm"
  shows "splitDescription ord lm = Inl SliceBoundsOutOfRange"
  unfolding splitDescription_def
  by (rule splitGroups_panics) (simp add: fitsSplit_linesOrder [OF assms(1)] assms(2))

lemma splitDescription_fits:
  assumes "valid_orders ord" "list_all (fitsSplit ord) (scanHelpMessage c markers)"
  shows "splitDescription ord (scanHelpMessage c markers)
    = Inr (map (splitEntry ord) (linesOrder ord (scanHelpMessage c markers)))"
proof -
  let ?lm = "scanHelpMessage c markers"
  let ?L = "linesOrder ord ?lm"
  have perm: "mset ?L = mset ?lm" using assms(1) by (simp add: valid_orders_def)
  have d: "distinct (map fst ?L)"
    using scanHelpMessage_distinct [of c markers] perm
    by (metis distinct_map mset_eq_imp_distinct_iff mset_eq_setD)
  have n: "\<forall>entry\<in>set ?L. snd entry \<noteq> []"
    using scanHelpMessage_nonempty [of c markers] mset_eq_setD [OF perm] by simp
  from splitGroups_fits [of ord ?L "[]"] assms obtain pm where
    pm: "splitGroups ord [] ?L = Inr pm"
    by (auto simp: fitsSplit_linesOrder)
  from splitGroups_result [of "[]" ?L ord pm] d n pm have "pm = map (splitEntry ord) ?L"
    by simp
  with pm show ?thesis by (simp add: splitDescription_def)
qed

lemma setOptions_continuation_first:
  assumes "valid_orders ord"
    and "scanHelpMessage c [''Options:''] = [(k, line # lines)]"
    and "fitsSplit ord (k, line # lines)"
    and "TrimSpace (take (descHeadIndex ord (line # lines)) line) = []"
    and "Options c = []"
  shows "setOptions ord c = Inr (c, Some (OptionsError (ChainString c)))"
proof -
  have "list_all (fitsSplit ord) (scanHelpMessage c [''Options:''])"
    using assms(3) by (simp add: assms(2))
  from splitDescription_fits [OF assms(1) this]
  have s: "splitDescription ord (scanHelpMessage c [''Options:''])
      = Inr [splitEntry ord (k, line # lines)]"
    using assms(1) by (simp add: assms(2))
  have p: "allPairs ord [splitEntry ord (k, line # lines)]
      = (take (descHeadIndex ord (line # lines)) line, drop (descHeadIndex ord (line # lines)) line)
        # map (\<lambda>l. (take (descHeadIndex ord (line # lines)) l,
                      drop (descHeadIndex ord (line # lines)) l)) lines"
    using assms(1) by (simp add: allPairs_def splitEntry_def)
  show ?thesis
    using assms(4,5) Command_eq_fields [of c]
    by (simp add: setOptions_def s p Let_def split: prod.splits)
qed

lemma subcommand_pairs:
  assumes "valid_orders ord"
    and "list_all (fitsSplit ord) (scanHelpMessage c markers)"
    and "pairsOrder ord (map (splitEntry ord) (linesOrder ord (scanHelpMessage c markers)))
           = splitEntry ord (k, line # lines) # others"
  shows "\<exists>pairsMap rest.
    splitDescription ord (scanHelpMessage c markers) = Inr pairsMap \<and>
    allPairs ord pairsMap
      = (take (descHeadIndex ord (line # lines)) line, drop (descHeadIndex ord (line # lines)) line)
        # rest"
  using splitDescription_fits [OF assms(1,2)] assms(3)
  by (simp add: allPairs_def splitEntry_def)


lemma setSubcommandsLoop_child_error:
  assumes "TrimSpace (fst pair) \<noteq> []"
    and "forge (TrimSpace (fst pair)) (Chain c) (TrimSpace (snd pair))
        = Some (Inr (subcommand, Some err))"
  shows "setSubcommandsLoop forge c (pair # rest) = Some (Inr (c, Some err))"
  using assms by (cases subcommand) (simp_all add: Let_def)

text \<open>
  Claim C9, as the code has it.  \<^verbatim>\<open>Forge\<close> has run the tool and has the help text.
  The test is on the node, not on the section: \<^verbatim>\<open>len(c.Options) == 0\<close>,
  \<^verbatim>\<open>len(c.Subcommands) == 0\<close>.

  The options section is the line group that the scan stores for \<^verbatim>\<open>Options:\<close>.  When
  no line of it is shorter than its split column and the name field of its first line,
  the bytes before the split column, is empty after trimming, no option has been built
  yet: \<^verbatim>\<open>Forge\<close> returns the error of \<^verbatim>\<open>setOptions\<close>, and the node has no option.

  The subcommand sections are the line groups that the scan stores for the three
  markers; the pairs are taken group by group.  When the options were built, no line of
  a group is shorter than the split column of its group, and the group whose pairs are
  taken first has a first line with an empty name field, no subcommand has been built
  yet (the pairs of a group are its lines cut at its split column, as the fifth part of
  the statement says of \<^verbatim>\<open>splitDescription\<close>): \<^verbatim>\<open>Forge\<close> returns the error of \<^verbatim>\<open>setSubcommands\<close>, and the node has no
  subcommand.  When that first line has a name and \<^verbatim>\<open>Forge\<close> returns an error for
  the subcommand of that name, the error is returned for the node as well; so an error
  reaches the callers above.  In general, a \<^verbatim>\<open>setSubcommands\<close> whose call of
  \<^verbatim>\<open>Forge\<close> returns an error returns that error, without adding a subcommand.

  When a line of a section is shorter than the split column of its group, line 299
  panics and no error value is returned.
\<close>

theorem continuation_before_first_entry_is_an_error:
  assumes "valid_orders ord" and "invoke (chain @ [cmd, ''--help'']) = Some msg"
  shows "(let c0 = setArgument ord (Command (chain @ [cmd]) desc 0 [] [] msg);
              commands = [''Commands:'', ''Available Commands:'', ''Management Commands:'']
          in
     (\<forall>k line lines.
        scanHelpMessage c0 [''Options:''] = [(k, line # lines)] \<longrightarrow>
        fitsSplit ord (k, line # lines) \<longrightarrow>
        TrimSpace (take (descHeadIndex ord (line # lines)) line) = [] \<longrightarrow>
        Forge (Suc depth) invoke ord cmd chain desc
          = Some (Inr (Some c0, Some (OptionsError (Join (chain @ [cmd]) '' '')))) \<and>
        Options c0 = []) \<and>
     (\<forall>c1 k line lines others.
        setOptions ord c0 = Inr (c1, None) \<longrightarrow>
        list_all (fitsSplit ord) (scanHelpMessage c1 commands) \<longrightarrow>
        (k, line # lines) \<in> set (scanHelpMessage c1 commands) \<longrightarrow>
        pairsOrder ord (map (splitEntry ord) (linesOrder ord (scanHelpMessage c1 commands)))
          = splitEntry ord (k, line # lines) # others \<longrightarrow>
        (TrimSpace (take (descHeadIndex ord (line # lines)) line) = [] \<longrightarrow>
           Forge (Suc depth) invoke ord cmd chain desc
             = Some (Inr (Some c1, Some (SubcommandsError (Join (chain @ [cmd]) '' '')))) \<and>
           Subcommands c1 = []) \<and>
        (\<forall>subcommand err.
           TrimSpace (take (descHeadIndex ord (line # lines)) line) \<noteq> [] \<longrightarrow>
           Forge depth invoke ord (TrimSpace (take (descHeadIndex ord (line # lines)) line))
               (chain @ [cmd]) (TrimSpace (drop (descHeadIndex ord (line # lines)) line))
             = Some (Inr (subcommand, Some err)) \<longrightarrow>
           Forge (Suc depth) invoke ord cmd chain desc = Some (Inr (Some c1, Some err)))) \<and>
     (\<not> list_all (fitsSplit ord) (scanHelpMessage c0 [''Options:'']) \<longrightarrow>
        Forge (Suc depth) invoke ord cmd chain desc = Some (Inl SliceBoundsOutOfRange)) \<and>
     (\<forall>c1. setOptions ord c0 = Inr (c1, None) \<longrightarrow>
        \<not> list_all (fitsSplit ord) (scanHelpMessage c1 commands) \<longrightarrow>
        Forge (Suc depth) invoke ord cmd chain desc = Some (Inl SliceBoundsOutOfRange))) \<and>
   (\<forall>c markers.
      list_all (fitsSplit ord) (scanHelpMessage c markers) \<longrightarrow>
      splitDescription ord (scanHelpMessage c markers)
        = Inr (map (splitEntry ord) (linesOrder ord (scanHelpMessage c markers)))) \<and>
   (\<forall>forge c pair rest subcommand err.
      TrimSpace (fst pair) \<noteq> [] \<longrightarrow>
      forge (TrimSpace (fst pair)) (Chain c) (TrimSpace (snd pair))
        = Some (Inr (subcommand, Some err)) \<longrightarrow>
      setSubcommandsLoop forge c (pair # rest) = Some (Inr (c, Some err)))"
proof -
  define c0 where "c0 = setArgument ord (Command (chain @ [cmd]) desc 0 [] [] msg)"
  define commands where
    "commands = [''Commands:'', ''Available Commands:'', ''Management Commands:'']"
  have c0: "Options c0 = []" "Subcommands c0 = []" "ChainString c0 = Join (chain @ [cmd]) '' ''"
    "Chain c0 = chain @ [cmd]"
    by (simp_all add: c0_def ChainString_def)
  note F = Forge_Suc [where invoke = invoke and chain = chain and cmd = cmd and msg = msg
      and depth = depth and ord = ord and desc = desc, OF assms(2), folded c0_def]
  have A: "Forge (Suc depth) invoke ord cmd chain desc
          = Some (Inr (Some c0, Some (OptionsError (Join (chain @ [cmd]) '' '')))) \<and>
        Options c0 = []"
    if "scanHelpMessage c0 [''Options:''] = [(k, line # lines)]"
      "fitsSplit ord (k, line # lines)"
      "TrimSpace (take (descHeadIndex ord (line # lines)) line) = []" for k line lines
    using setOptions_continuation_first [OF assms(1) that c0(1)] c0
    by (simp add: F del: Forge.simps)
  have c1: "Subcommands c1 = []" "ChainString c1 = Join (chain @ [cmd]) '' ''"
      "Chain c1 = chain @ [cmd]"
    if "setOptions ord c0 = Inr (c1, None)" for c1
    using setOptions_fields [OF that] c0 by (simp_all add: ChainString_def)
  have F1: "Forge (Suc depth) invoke ord cmd chain desc =
      (case setSubcommands (Forge depth invoke ord) ord c1 of
         None \<Rightarrow> None
       | Some (Inl p) \<Rightarrow> Some (Inl p)
       | Some (Inr (c, err)) \<Rightarrow> Some (Inr (Some c, err)))"
    if "setOptions ord c0 = Inr (c1, None)" for c1
    using that by (simp add: F del: Forge.simps)
  have B1: "Forge (Suc depth) invoke ord cmd chain desc
          = Some (Inr (Some c1, Some (SubcommandsError (Join (chain @ [cmd]) '' '')))) \<and>
        Subcommands c1 = []"
    if o: "setOptions ord c0 = Inr (c1, None)"
      and f: "list_all (fitsSplit ord) (scanHelpMessage c1 commands)"
      and p: "pairsOrder ord (map (splitEntry ord) (linesOrder ord (scanHelpMessage c1 commands)))
          = splitEntry ord (k, line # lines) # others"
      and t: "TrimSpace (take (descHeadIndex ord (line # lines)) line) = []"
    for c1 k line lines others
  proof -
    from subcommand_pairs [OF assms(1) f p] obtain pairsMap rest where
      s: "splitDescription ord (scanHelpMessage c1 commands) = Inr pairsMap"
        "allPairs ord pairsMap
          = (take (descHeadIndex ord (line # lines)) line,
             drop (descHeadIndex ord (line # lines)) line) # rest"
      by blast
    have "setSubcommands (Forge depth invoke ord) ord c1
        = Some (Inr (c1, Some (SubcommandsError (ChainString c1))))"
      using s t c1(1) [OF o] by (simp add: setSubcommands_def commands_def Let_def)
    with c1 [OF o] show ?thesis by (simp add: F1 [OF o] del: Forge.simps)
  qed
  have B2: "Forge (Suc depth) invoke ord cmd chain desc = Some (Inr (Some c1, Some err))"
    if o: "setOptions ord c0 = Inr (c1, None)"
      and f: "list_all (fitsSplit ord) (scanHelpMessage c1 commands)"
      and p: "pairsOrder ord (map (splitEntry ord) (linesOrder ord (scanHelpMessage c1 commands)))
          = splitEntry ord (k, line # lines) # others"
      and t: "TrimSpace (take (descHeadIndex ord (line # lines)) line) \<noteq> []"
      and e: "Forge depth invoke ord (TrimSpace (take (descHeadIndex ord (line # lines)) line))
               (chain @ [cmd]) (TrimSpace (drop (descHeadIndex ord (line # lines)) line))
             = Some (Inr (subcommand, Some err))"
    for c1 k line lines others subcommand err
  proof -
    from subcommand_pairs [OF assms(1) f p] obtain pairsMap rest where
      s: "splitDescription ord (scanHelpMessage c1 commands) = Inr pairsMap"
        "allPairs ord pairsMap
          = (take (descHeadIndex ord (line # lines)) line,
             drop (descHeadIndex ord (line # lines)) line) # rest"
      by blast
    let ?pair = "(take (descHeadIndex ord (line # lines)) line,
             drop (descHeadIndex ord (line # lines)) line)"
    have "setSubcommandsLoop (Forge depth invoke ord) c1 (allPairs ord pairsMap)
        = Some (Inr (c1, Some err))"
      unfolding s(2)
      by (rule setSubcommandsLoop_child_error) (use t e c1(3) [OF o] in simp_all)
    then have "setSubcommands (Forge depth invoke ord) ord c1 = Some (Inr (c1, Some err))"
      by (simp add: setSubcommands_def s(1) [unfolded commands_def]
          del: setSubcommandsLoop.simps)
    then show ?thesis by (simp add: F1 [OF o] del: Forge.simps)
  qed
  have P1: "Forge (Suc depth) invoke ord cmd chain desc = Some (Inl SliceBoundsOutOfRange)"
    if "\<not> list_all (fitsSplit ord) (scanHelpMessage c0 [''Options:''])"
    using splitDescription_panics [OF assms(1) that]
    by (simp add: F setOptions_def del: Forge.simps)
  have P2: "Forge (Suc depth) invoke ord cmd chain desc = Some (Inl SliceBoundsOutOfRange)"
    if o: "setOptions ord c0 = Inr (c1, None)"
      and n: "\<not> list_all (fitsSplit ord) (scanHelpMessage c1 commands)" for c1
    using splitDescription_panics [OF assms(1) n]
    by (simp add: F1 [OF o] setSubcommands_def commands_def del: Forge.simps)
  have A': "\<forall>k line lines.
        scanHelpMessage c0 [''Options:''] = [(k, line # lines)] \<longrightarrow>
        fitsSplit ord (k, line # lines) \<longrightarrow>
        TrimSpace (take (descHeadIndex ord (line # lines)) line) = [] \<longrightarrow>
        Forge (Suc depth) invoke ord cmd chain desc
          = Some (Inr (Some c0, Some (OptionsError (Join (chain @ [cmd]) '' '')))) \<and>
        Options c0 = []"
    using A by (intro allI impI)
  have B': "\<forall>c1 k line lines others.
        setOptions ord c0 = Inr (c1, None) \<longrightarrow>
        list_all (fitsSplit ord) (scanHelpMessage c1 commands) \<longrightarrow>
        (k, line # lines) \<in> set (scanHelpMessage c1 commands) \<longrightarrow>
        pairsOrder ord (map (splitEntry ord) (linesOrder ord (scanHelpMessage c1 commands)))
          = splitEntry ord (k, line # lines) # others \<longrightarrow>
        (TrimSpace (take (descHeadIndex ord (line # lines)) line) = [] \<longrightarrow>
           Forge (Suc depth) invoke ord cmd chain desc
             = Some (Inr (Some c1, Some (SubcommandsError (Join (chain @ [cmd]) '' '')))) \<and>
           Subcommands c1 = []) \<and>
        (\<forall>subcommand err.
           TrimSpace (take (descHeadIndex ord (line # lines)) line) \<noteq> [] \<longrightarrow>
           Forge depth invoke ord (TrimSpace (take (descHeadIndex ord (line # lines)) line))
               (chain @ [cmd]) (TrimSpace (drop (descHeadIndex ord (line # lines)) line))
             = Some (Inr (subcommand, Some err)) \<longrightarrow>
           Forge (Suc depth) invoke ord cmd chain desc = Some (Inr (Some c1, Some err)))"
  proof (intro allI impI conjI)
    fix c1 k line lines others
    assume o: "setOptions ord c0 = Inr (c1, None)"
      and f: "list_all (fitsSplit ord) (scanHelpMessage c1 commands)"
      and p: "pairsOrder ord (map (splitEntry ord) (linesOrder ord (scanHelpMessage c1 commands)))
          = splitEntry ord (k, line # lines) # others"
    {
      assume t: "TrimSpace (take (descHeadIndex ord (line # lines)) line) = []"
      from B1 [OF o f p t]
      show "Forge (Suc depth) invoke ord cmd chain desc
             = Some (Inr (Some c1, Some (SubcommandsError (Join (chain @ [cmd]) '' ''))))"
        and "Subcommands c1 = []" by simp_all
    }
    fix subcommand err
    assume t: "TrimSpace (take (descHeadIndex ord (line # lines)) line) \<noteq> []"
      and e: "Forge depth invoke ord (TrimSpace (take (descHeadIndex ord (line # lines)) line))
               (chain @ [cmd]) (TrimSpace (drop (descHeadIndex ord (line # lines)) line))
             = Some (Inr (subcommand, Some err))"
    show "Forge (Suc depth) invoke ord cmd chain desc = Some (Inr (Some c1, Some err))"
      by (rule B2 [OF o f p t e])
  qed
  have P1': "\<not> list_all (fitsSplit ord) (scanHelpMessage c0 [''Options:'']) \<longrightarrow>
        Forge (Suc depth) invoke ord cmd chain desc = Some (Inl SliceBoundsOutOfRange)"
    using P1 by (intro impI)
  have P2': "\<forall>c1. setOptions ord c0 = Inr (c1, None) \<longrightarrow>
        \<not> list_all (fitsSplit ord) (scanHelpMessage c1 commands) \<longrightarrow>
        Forge (Suc depth) invoke ord cmd chain desc = Some (Inl SliceBoundsOutOfRange)"
    using P2 by (intro allI impI)
  have C': "\<forall>forge c pair rest subcommand err.
      TrimSpace (fst pair) \<noteq> [] \<longrightarrow>
      forge (TrimSpace (fst pair)) (Chain c) (TrimSpace (snd pair))
        = Some (Inr (subcommand, Some err)) \<longrightarrow>
      setSubcommandsLoop forge c (pair # rest) = Some (Inr (c, Some err))"
    using setSubcommandsLoop_child_error by (intro allI impI)
  have S': "\<forall>c markers.
      list_all (fitsSplit ord) (scanHelpMessage c markers) \<longrightarrow>
      splitDescription ord (scanHelpMessage c markers)
        = Inr (map (splitEntry ord) (linesOrder ord (scanHelpMessage c markers)))"
    using splitDescription_fits [OF assms(1)] by (intro allI impI)
  show ?thesis
    unfolding Let_def c0_def [symmetric] commands_def [symmetric]
    by (intro conjI A' B' P1' P2' S' C')
qed

theorem continuation_before_first_entry_is_an_error_witness:
  "valid_orders insertionOrder \<and>
   (map_of [([''docker'', ''--help''],
       ''Options:\<newline>                 more\<newline>-f, --force    Force the removal\<newline>'')])
      ([] @ [''docker'', ''--help''])
     = Some ''Options:\<newline>                 more\<newline>-f, --force    Force the removal\<newline>'' \<and>
   scanHelpMessage (setArgument insertionOrder (Command ([] @ [''docker'']) [] 0 [] []
        ''Options:\<newline>                 more\<newline>-f, --force    Force the removal\<newline>''))
       [''Options:'']
     = [(''Options:'', [''                 more'', ''-f, --force    Force the removal''])] \<and>
   descHeadIndex insertionOrder [''                 more'', ''-f, --force    Force the removal'']
     = 15 \<and>
   fitsSplit insertionOrder
     (''Options:'', [''                 more'', ''-f, --force    Force the removal'']) \<and>
   TrimSpace (take 15 ''                 more'') = [] \<and>
   Forge (Suc 0)
     (map_of [([''docker'', ''--help''],
       ''Options:\<newline>                 more\<newline>-f, --force    Force the removal\<newline>'')])
     insertionOrder ''docker'' [] []
     = Some (Inr (Some (Command [''docker''] [] 0 [] []
          ''Options:\<newline>                 more\<newline>-f, --force    Force the removal\<newline>''),
        Some (OptionsError ''docker''))) \<and>
   \<not> list_all (fitsSplit insertionOrder)
       (scanHelpMessage (setArgument insertionOrder (Command ([] @ [''docker'']) [] 0 [] []
          ''Options:\<newline>                 more\<newline>-f, --force    Force the removal\<newline>-q\<newline>''))
         [''Options:'']) \<and>
   Forge (Suc 0)
     (map_of [([''docker'', ''--help''],
       ''Options:\<newline>                 more\<newline>-f, --force    Force the removal\<newline>-q\<newline>'')])
     insertionOrder ''docker'' [] []
     = Some (Inl SliceBoundsOutOfRange) \<and>
   setOptions insertionOrder (setArgument insertionOrder
        (Command ([] @ [''docker'']) [] 0 [] []
           ''Commands:\<newline>            and more\<newline>  run     Run a container\<newline>''))
     = Inr (Command [''docker''] [] 0 [] []
           ''Commands:\<newline>            and more\<newline>  run     Run a container\<newline>'', None) \<and>
   scanHelpMessage (Command [''docker''] [] 0 [] []
           ''Commands:\<newline>            and more\<newline>  run     Run a container\<newline>'')
       [''Commands:'', ''Available Commands:'', ''Management Commands:'']
     = [(''Commands:'', [''            and more'', ''  run     Run a container''])] \<and>
   descHeadIndex insertionOrder [''            and more'', ''  run     Run a container''] = 10 \<and>
   fitsSplit insertionOrder (''Commands:'', [''            and more'', ''  run     Run a container'']) \<and>
   TrimSpace (take 10 ''            and more'') = [] \<and>
   Forge (Suc 0)
     (map_of [([''docker'', ''--help''],
        ''Commands:\<newline>            and more\<newline>  run     Run a container\<newline>'')])
     insertionOrder ''docker'' [] []
     = Some (Inr (Some (Command [''docker''] [] 0 [] []
           ''Commands:\<newline>            and more\<newline>  run     Run a container\<newline>''),
         Some (SubcommandsError ''docker'')))"
proof -
  note V = valid_insertionOrder
  have ord: "linesOrder insertionOrder m = m" "pairsOrder insertionOrder p = p" for m p
    by (simp_all add: insertionOrder_def)
  txt \<open>The options section\<close>
  let ?msg = "''Options:\<newline>                 more\<newline>-f, --force    Force the removal\<newline>''"
  let ?invoke = "map_of [([''docker'', ''--help''], ?msg)]"
  let ?c0 = "setArgument insertionOrder (Command ([] @ [''docker'']) [] 0 [] [] ?msg)"
  let ?L = "[''                 more'', ''-f, --force    Force the removal'']"
  have c0: "?c0 = Command [''docker''] [] 0 [] [] ?msg"
    by (simp add: cmd_defs bufio_defs regexp_defs strings_defs insertionOrder_def)
  have h1: "?invoke ([] @ [''docker'', ''--help'']) = Some ?msg" by simp
  have h2: "scanHelpMessage ?c0 [''Options:''] = [(''Options:'', ?L)]"
    unfolding c0 by (simp add: scanHelpMessage_def bufio_defs regexp_defs strings_defs)
  have h3: "descHeadIndex insertionOrder ?L = 15"
    by (simp add: split_defs regexp_defs insertionOrder_def)
  have h4: "fitsSplit insertionOrder (''Options:'', ?L)"
    by (simp add: fitsSplit_def h3)
  have h5: "TrimSpace (take 15 ''                 more'') = []"
    by (simp add: strings_defs)
  have h5': "TrimSpace (take (descHeadIndex insertionOrder ?L) ''                 more'') = []"
    unfolding h3 by (rule h5)
  have A: "Forge (Suc 0) ?invoke insertionOrder ''docker'' [] []
     = Some (Inr (Some (Command [''docker''] [] 0 [] [] ?msg), Some (OptionsError ''docker'')))"
    using continuation_before_first_entry_is_an_error [where invoke = ?invoke and chain = "[]"
        and cmd = "''docker''" and msg = ?msg and ord = insertionOrder and desc = "[]"
        and depth = 0, OF V h1, unfolded Let_def, THEN conjunct1, THEN conjunct1, rule_format,
        OF h2 h4 h5', THEN conjunct1]
    unfolding c0 by (simp add: strings_defs)
  txt \<open>An options section with a short line\<close>
  let ?msgq = "''Options:\<newline>                 more\<newline>-f, --force    Force the removal\<newline>-q\<newline>''"
  let ?invokeq = "map_of [([''docker'', ''--help''], ?msgq)]"
  let ?cq = "setArgument insertionOrder (Command ([] @ [''docker'']) [] 0 [] [] ?msgq)"
  let ?Lq = "[''                 more'', ''-f, --force    Force the removal'', ''-q'']"
  have cq: "?cq = Command [''docker''] [] 0 [] [] ?msgq"
    by (simp add: cmd_defs bufio_defs regexp_defs strings_defs insertionOrder_def)
  have q1: "?invokeq ([] @ [''docker'', ''--help'']) = Some ?msgq" by simp
  have q2: "scanHelpMessage ?cq [''Options:''] = [(''Options:'', ?Lq)]"
    unfolding cq by (simp add: scanHelpMessage_def bufio_defs regexp_defs strings_defs)
  have q3: "descHeadIndex insertionOrder ?Lq = 15"
    by (simp add: split_defs regexp_defs insertionOrder_def)
  have q4: "\<not> list_all (fitsSplit insertionOrder) (scanHelpMessage ?cq [''Options:''])"
    unfolding q2 by (simp add: fitsSplit_def q3)
  have Q: "Forge (Suc 0) ?invokeq insertionOrder ''docker'' [] [] = Some (Inl SliceBoundsOutOfRange)"
    by (rule continuation_before_first_entry_is_an_error [where invoke = ?invokeq and chain = "[]"
        and cmd = "''docker''" and msg = ?msgq and ord = insertionOrder and desc = "[]"
        and depth = 0, OF V q1, unfolded Let_def, THEN conjunct1, THEN conjunct2, THEN conjunct2,
        THEN conjunct1, rule_format, OF q4])
  txt \<open>The subcommand sections\<close>
  let ?msg' = "''Commands:\<newline>            and more\<newline>  run     Run a container\<newline>''"
  let ?invoke' = "map_of [([''docker'', ''--help''], ?msg')]"
  let ?c0' = "setArgument insertionOrder (Command ([] @ [''docker'']) [] 0 [] [] ?msg')"
  let ?c1 = "Command [''docker''] [] 0 [] [] ?msg'"
  let ?M = "[''Commands:'', ''Available Commands:'', ''Management Commands:'']"
  let ?L' = "[''            and more'', ''  run     Run a container'']"
  have c0': "?c0' = ?c1"
    by (simp add: cmd_defs bufio_defs regexp_defs strings_defs insertionOrder_def)
  have k1: "?invoke' ([] @ [''docker'', ''--help'']) = Some ?msg'" by simp
  have k2: "setOptions insertionOrder ?c0' = Inr (?c1, None)"
    unfolding c0'
    by (simp add: cmd_defs split_defs bufio_defs regexp_defs strings_defs insertionOrder_def)
  have k3: "scanHelpMessage ?c1 ?M = [(''Commands:'', ?L')]"
    by (simp add: scanHelpMessage_def bufio_defs regexp_defs strings_defs)
  have k4: "descHeadIndex insertionOrder ?L' = 10"
    by (simp add: split_defs regexp_defs insertionOrder_def)
  have k5: "fitsSplit insertionOrder (''Commands:'', ?L')"
    by (simp add: fitsSplit_def k4)
  have k5': "list_all (fitsSplit insertionOrder) (scanHelpMessage ?c1 ?M)"
    unfolding k3 using k5 by simp
  have k6: "(''Commands:'', ?L') \<in> set (scanHelpMessage ?c1 ?M)"
    unfolding k3 by simp
  have k7: "pairsOrder insertionOrder
      (map (splitEntry insertionOrder) (linesOrder insertionOrder (scanHelpMessage ?c1 ?M)))
      = splitEntry insertionOrder (''Commands:'', ?L') # []"
    unfolding k3 ord by simp
  have k8: "TrimSpace (take 10 ''            and more'') = []"
    by (simp add: strings_defs)
  have k8': "TrimSpace (take (descHeadIndex insertionOrder ?L') ''            and more'') = []"
    unfolding k4 by (rule k8)
  have B: "Forge (Suc 0) ?invoke' insertionOrder ''docker'' [] []
     = Some (Inr (Some ?c1, Some (SubcommandsError ''docker'')))"
    using continuation_before_first_entry_is_an_error [where invoke = ?invoke' and chain = "[]"
        and cmd = "''docker''" and msg = ?msg' and ord = insertionOrder and desc = "[]"
        and depth = 0, OF V k1, unfolded Let_def, THEN conjunct1, THEN conjunct2, THEN conjunct1,
        rule_format, OF k2 k5' k6 k7, THEN conjunct1, rule_format, OF k8', THEN conjunct1]
    by (simp add: strings_defs)
  from V h1 h2 h3 h4 h5 A q4 Q k2 k3 k4 k5 k8 B show ?thesis by (intro conjI)
qed

text \<open>
  Claim C9 as stated speaks of a continuation line before any entry of its own section.
  In the help text below the section \<^verbatim>\<open>Commands:\<close> begins with a continuation line: its
  name field, the first 10 bytes, is blank.  Visited after the section
  \<^verbatim>\<open>Management Commands:\<close>, which has built the subcommand \<^verbatim>\<open>image\<close>, the line is
  appended to the description of \<^verbatim>\<open>image\<close>, and \<^verbatim>\<open>Forge\<close> returns the node without an
  error.
\<close>

theorem continuation_line_at_the_head_of_a_later_section:
  "scanHelpMessage (Command [''docker''] [] 0 [] [] lateHelp)
      [''Commands:'', ''Available Commands:'', ''Management Commands:'']
     = [(''Management Commands:'', [''  image   Manage images'']),
        (''Commands:'', [''            and more'', ''  run     Run a container''])] \<and>
   descHeadIndex insertionOrder [''            and more'', ''  run     Run a container''] = 10 \<and>
   TrimSpace (take 10 ''            and more'') = [] \<and>
   Forge (Suc (Suc 0)) lateTool insertionOrder ''docker'' [] []
     = Some (Inr (Some (Command [''docker''] [] 0 []
          [Command [''docker'', ''image''] ''Manage images and more'' 0 [] [] [],
           Command [''docker'', ''run''] ''Run a container'' 0 [] [] []]
          lateHelp), None))"
proof -
  have sub: "Forge (Suc 0) lateTool insertionOrder name [''docker''] desc
      = Some (Inr (Some (Command [''docker'', name] desc 0 [] [] []), None))"
    if "name = ''run'' \<or> name = ''image''" for name desc
    using that
    by (auto simp: lateTool_def cmd_defs split_defs bufio_defs insertionOrder_def)
  have scan: "scanHelpMessage (Command ch d a os ss lateHelp)
       [''Commands:'', ''Available Commands:'', ''Management Commands:'']
     = [(''Management Commands:'', [''  image   Manage images'']),
        (''Commands:'', [''            and more'', ''  run     Run a container''])]" for ch d a os ss
    by (simp add: lateHelp_def scanHelpMessage_def bufio_defs regexp_defs strings_defs)
  have scanU: "scanHelpMessage (Command ch d a os ss lateHelp) [''Usage:''] = []" for ch d a os ss
    by (simp add: lateHelp_def scanHelpMessage_def bufio_defs regexp_defs strings_defs)
  have scanO: "scanHelpMessage (Command ch d a os ss lateHelp) [''Options:''] = []" for ch d a os ss
    by (simp add: lateHelp_def scanHelpMessage_def bufio_defs regexp_defs strings_defs)
  have idx: "descHeadIndex insertionOrder [''            and more'', ''  run     Run a container''] = 10"
    by (simp add: split_defs regexp_defs insertionOrder_def)
  have t: "TrimSpace ''  image   '' = ''image''" "TrimSpace ''  run     '' = ''run''"
    "TrimSpace ''          '' = []" "TrimSpace ''  and more'' = ''and more''"
    "TrimSpace ''Manage images'' = ''Manage images''"
    "TrimSpace ''Run a container'' = ''Run a container''"
    by (simp_all add: strings_defs)
  have i: "lateTool [''docker'', ''--help''] = Some lateHelp" by (simp add: lateTool_def)
  have ord: "linesOrder insertionOrder m = m" "votesOrder insertionOrder v = v"
    "pairsOrder insertionOrder p = p" for m v p
    by (simp_all add: insertionOrder_def)
  have F: "Forge (Suc (Suc 0)) lateTool insertionOrder ''docker'' [] []
     = Some (Inr (Some (Command [''docker''] [] 0 []
          [Command [''docker'', ''image''] ''Manage images and more'' 0 [] [] [],
           Command [''docker'', ''run''] ''Run a container'' 0 [] [] []]
          lateHelp), None))"
    unfolding Forge.simps(2) [of "Suc 0"]
    by (simp add: i setArgument_def usageLines_def scanU setOptions_def scanO setSubcommands_def
        scan split_defs regexp_defs allPairs_def ord t sub Let_def ChainString_def
        del: Forge.simps)
  from scan [of "[''docker'']" "[]" 0 "[]" "[]"] idx t(3) F show ?thesis by simp
qed

section \<open>splitDescription: lines shorter than the split column\<close>

text \<open>
  Claim C10 says that \<^verbatim>\<open>splitDescription\<close> returns a pair for every line of every
  group, also when a line is shorter than the split column.  The code slices every line
  at the column that the votes of the whole group chose, without comparing it with the
  length of the line.  For the group of the two lines below the column is 15, the second
  line has 4 bytes, and the slice expression of line 299 panics.
\<close>

theorem splitDescription_short_line_panics:
  "splitDescription insertionOrder
     [(''Options:'', [''-f, --force    Force the removal'', ''  -q''])]
   = Inl SliceBoundsOutOfRange"
  by (simp add: split_defs regexp_defs insertionOrder_def)

end
